theory Spec2Isabelle
  imports Main "HOL-Library.Word"
begin

unbundle bit_operations_syntax

section \<open>Machine types and file-system constants\<close>

type_synonym u8 = "8 word"
type_synonym short = "16 word"
type_synonym u32 = "32 word"
type_synonym u64 = "64 word"

text \<open>
  The C type \<open>int\<close> of the return values: 32 bits, two's complement; \<open>-1\<close> is the
  word \<open>0xFFFFFFFF\<close>.
\<close>

type_synonym cint = "32 word"

text \<open>
  Modelled from the spec: the header \<open>fs.h\<close> (\<open>BSIZE\<close>, \<open>NDIRECT\<close>, \<open>NINDIRECT\<close>,
  \<open>DIRSIZ\<close>, \<open>MAXFILE\<close>, \<open>BPB\<close>, \<open>IPB\<close>, \<open>IBLOCK\<close>, \<open>BBLOCK\<close>, \<open>struct dinode\<close>,
  \<open>struct dirent\<close>, \<open>struct superblock\<close>) is not among the sources. The numeric constants
  are parameters of every function; the derived ones follow section 6 of the
  specification. The superblock \<open>sb_root\<close> is read once at boot and never changes, so its
  fields \<open>size\<close> and \<open>ninodes\<close> are parameters as well.
\<close>

record fsconst =
  BSIZE :: nat
  NDIRECT :: nat
  NINDIRECT :: nat
  DIRSIZ :: nat
  sb_size :: u32
  sb_ninodes :: u32

definition MAXFILE :: "fsconst \<Rightarrow> nat" where
  "MAXFILE c = NDIRECT c + NINDIRECT c + NINDIRECT c * NINDIRECT c"

definition BPB :: "fsconst \<Rightarrow> nat" where
  "BPB c = BSIZE c * 8"

definition sizeof_dinode :: "fsconst \<Rightarrow> nat" where
  "sizeof_dinode c = 16 + 4 * (NDIRECT c + 2)"

definition sizeof_dirent :: "fsconst \<Rightarrow> nat" where
  "sizeof_dirent c = 4 + DIRSIZ c"

definition IPB :: "fsconst \<Rightarrow> nat" where
  "IPB c = BSIZE c div sizeof_dinode c"

definition IBLOCK :: "fsconst \<Rightarrow> u32 \<Rightarrow> u32" where
  "IBLOCK c i = of_nat (2 + unat i div IPB c)"

definition BBLOCK :: "fsconst \<Rightarrow> u32 \<Rightarrow> u32 \<Rightarrow> u32" where
  "BBLOCK c b ninodes = of_nat (unat b div BPB c + unat ninodes div IPB c + 3)"


text \<open>Inode types (\<open>uk/stat.h\<close>, listed in section 6 of the specification).\<close>

definition T_DIR :: short where "T_DIR = 1"
definition T_FILE :: short where "T_FILE = 2"
definition T_DEV :: short where "T_DEV = 3"

section \<open>Bytes and little-endian 32-bit and 16-bit values in a block\<close>

text \<open>
  A block's payload \<open>char data[BSIZE]\<close>, and every raw \<open>char *\<close> argument, is a total
  function from byte offsets to bytes. The casts \<open>(u32 *)locked->data\<close> and
  \<open>(struct dinode *)locked->data\<close> read and write little-endian values (x86-64).
\<close>

type_synonym bytes = "nat \<Rightarrow> u8"

definition get_u32 :: "bytes \<Rightarrow> nat \<Rightarrow> u32" where
  "get_u32 d k = ucast (d k) OR push_bit 8 (ucast (d (k + 1)))
      OR push_bit 16 (ucast (d (k + 2))) OR push_bit 24 (ucast (d (k + 3)))"

definition put_u32 :: "bytes \<Rightarrow> nat \<Rightarrow> u32 \<Rightarrow> bytes" where
  "put_u32 d k v = d(k := ucast v, k + 1 := ucast (drop_bit 8 v),
      k + 2 := ucast (drop_bit 16 v), k + 3 := ucast (drop_bit 24 v))"

definition get_u16 :: "bytes \<Rightarrow> nat \<Rightarrow> short" where
  "get_u16 d k = ucast (d k) OR push_bit 8 (ucast (d (k + 1)))"

definition put_u16 :: "bytes \<Rightarrow> nat \<Rightarrow> short \<Rightarrow> bytes" where
  "put_u16 d k v = d(k := ucast v, k + 1 := ucast (drop_bit 8 v))"

text \<open>\<open>memmove(dst + doff, src + soff, m)\<close> and \<open>memset(dst, 0, m)\<close>.\<close>

definition memmove :: "bytes \<Rightarrow> nat \<Rightarrow> bytes \<Rightarrow> nat \<Rightarrow> nat \<Rightarrow> bytes" where
  "memmove dst doff src soff m =
     (\<lambda>k. if doff \<le> k \<and> k < doff + m then src (soff + (k - doff)) else dst k)"

definition memset0 :: "bytes \<Rightarrow> nat \<Rightarrow> bytes" where
  "memset0 dst m = (\<lambda>k. if k < m then 0 else dst k)"

text \<open>The \<open>u32\<close> array view \<open>ap[i]\<close> of a block.\<close>

definition ap_get :: "bytes \<Rightarrow> nat \<Rightarrow> u32" where
  "ap_get d i = get_u32 d (4 * i)"

definition ap_set :: "bytes \<Rightarrow> nat \<Rightarrow> u32 \<Rightarrow> bytes" where
  "ap_set d i v = put_u32 d (4 * i) v"

section \<open>Transactions (scalefs.hh)\<close>

record transaction_diskblock =
  blocknum :: u32
  blockdata :: bytes
  timestamp :: u64

text \<open>
  The vectors \<open>allocated_blocks\<close> and \<open>free_blocks\<close> with their methods
  \<open>add_allocated_block\<close> and \<open>add_free_block\<close> are called by \<open>fs.cc\<close> but not declared in
  the \<open>scalefs.hh\<close> at hand. Modelled from the spec: section 3 lists them as fields of a
  transaction and section 4.6 says that the two methods record the block number.
\<close>

record transaction =
  tx_timestamp :: u64
  blocks :: "transaction_diskblock list"
  new_files :: "u64 list"
  allocated_blocks :: "u32 list"
  free_blocks :: "u32 list"

definition new_transaction :: "u64 \<Rightarrow> transaction" where
  "new_transaction t = \<lparr>tx_timestamp = t, blocks = [], new_files = [],
     allocated_blocks = [], free_blocks = []\<rparr>"

text \<open>\<open>transaction::add_block\<close>: \<open>blocks.push_back(b)\<close> under the write lock.\<close>

definition add_block :: "transaction \<Rightarrow> transaction_diskblock \<Rightarrow> transaction" where
  "add_block t b = t\<lparr>blocks := blocks t @ [b]\<rparr>"

definition log_new_file :: "transaction \<Rightarrow> u64 \<Rightarrow> transaction" where
  "log_new_file t i = t\<lparr>new_files := new_files t @ [i]\<rparr>"

definition add_allocated_block :: "transaction \<Rightarrow> u32 \<Rightarrow> transaction" where
  "add_allocated_block t b = t\<lparr>allocated_blocks := allocated_blocks t @ [b]\<rparr>"


section \<open>In-memory inodes (file.hh) and the state of the file system\<close>

record dir_entry_info =
  de_inum :: u32
  de_offset :: u32

text \<open>
  The class \<open>dir_entries\<close> (\<open>dirns.hh\<close>, a \<open>chainhash\<close> from \<open>strbuf<DIRSIZ>\<close> to
  \<open>dir_entry_info\<close>) is not among the sources. Modelled from the spec: a hashed index from
  names to \<open>(inum, offset)\<close>, where \<open>insert\<close> fails on a key that is present, \<open>remove\<close>
  fails on a key that is absent and \<open>lookup\<close> leaves its out-parameter alone on a miss.
\<close>

type_synonym dir_entries = "string \<rightharpoonup> dir_entry_info"

record inode =
  dev :: u32
  inum :: u32
  gen :: u32
  type :: short
  major :: short
  minor :: short
  valid :: bool
  busy :: bool
  readbusy :: int
  i_size :: u32
  addrs :: "nat \<Rightarrow> u32"
  i_nlink :: short
  dir :: "dir_entries option"
  dir_offset :: u32
  refcount :: int

text \<open>
  The fields \<open>size\<close> and \<open>nlink_\<close> of the source are \<open>i_size\<close> and \<open>i_nlink\<close>; \<open>inum_\<close> and
  \<open>offset_\<close> of \<open>dir_entry_info\<close> are \<open>de_inum\<close> and \<open>de_offset\<close>; \<open>timestamp_\<close> of a
  transaction is \<open>tx_timestamp\<close>.
\<close>

text \<open>
  An \<open>sref<inode>\<close> is the key \<open>(dev, inum)\<close> of the inode in the cache \<open>ins\<close>: the cache
  holds one object per key, so two references with one key are aliases. A
  \<open>transaction *\<close> is \<open>None\<close> for \<open>NULL\<close> and otherwise an index into the store \<open>txs\<close>.

  Modelled from the spec: \<open>buf.hh\<close> is not among the sources. The buffer cache is a
  read/write cache over the block device: \<open>bufs\<close> is the cached payload of each block and
  \<open>dirty\<close> its dirty flag, which the write guard \<open>bp->write()\<close> sets; \<open>writeback\<close> copies
  a dirty payload to \<open>disk\<close>, clears the flag and is recorded in the trace \<open>disk_writes\<close>.
  \<open>free_list\<close> is the in-memory free-bit-vector behind \<open>rootfs_interface\<close>, as the list of
  its free block numbers.
\<close>

type_synonym ikey = "u32 \<times> u32"
type_synonym bkey = "u32 \<times> u32"

record fs_state =
  ins :: "ikey \<Rightarrow> inode option"
  bufs :: "bkey \<Rightarrow> bytes"
  dirty :: "bkey \<Rightarrow> bool"
  disk :: "bkey \<Rightarrow> bytes"
  disk_writes :: "bkey list"
  free_list :: "u32 list"
  txs :: "nat \<Rightarrow> transaction"
  tsc :: u64

text \<open>
  The outcome of a call: it returns a value, it throws \<open>out_of_blocks\<close> (the state reached
  so far stays, since \<open>writei\<close> catches the exception and goes on), or the kernel panics.
\<close>

datatype 'a result = Ret 'a fs_state | Throw_out_of_blocks fs_state | Panic string

definition rbind :: "'a result \<Rightarrow> ('a \<Rightarrow> fs_state \<Rightarrow> 'b result) \<Rightarrow> 'b result" where
  "rbind r f = (case r of Ret x s \<Rightarrow> f x s
                | Throw_out_of_blocks s \<Rightarrow> Throw_out_of_blocks s
                | Panic m \<Rightarrow> Panic m)"

subsection \<open>Buffer cache\<close>

definition buf_write :: "fs_state \<Rightarrow> bkey \<Rightarrow> bytes \<Rightarrow> fs_state" where
  "buf_write s k d = s\<lparr>bufs := (bufs s)(k := d), dirty := (dirty s)(k := True)\<rparr>"

text \<open>Taking the write guard \<open>bp->write()\<close> without a store still marks the buffer dirty.\<close>

definition buf_touch :: "fs_state \<Rightarrow> bkey \<Rightarrow> fs_state" where
  "buf_touch s k = s\<lparr>dirty := (dirty s)(k := True)\<rparr>"

definition writeback :: "fs_state \<Rightarrow> bkey \<Rightarrow> fs_state" where
  "writeback s k = s\<lparr>disk := (disk s)(k := bufs s k), dirty := (dirty s)(k := False),
     disk_writes := disk_writes s @ [k]\<rparr>"

definition writeback_async :: "fs_state \<Rightarrow> bkey \<Rightarrow> fs_state" where
  "writeback_async s k = (if dirty s k then writeback s k else s)"

text \<open>
  \<open>buf::add_to_transaction\<close>: logs a snapshot \<open>(blocknum, payload, timestamp)\<close> of the
  buffer into the transaction with \<open>add_block\<close>.
\<close>

definition add_to_transaction :: "fs_state \<Rightarrow> bkey \<Rightarrow> nat \<Rightarrow> fs_state" where
  "add_to_transaction s k t =
     s\<lparr>txs := (txs s)(t := add_block (txs s t)
        \<lparr>blocknum = snd k, blockdata = bufs s k, timestamp = tsc s\<rparr>)\<rparr>"

definition log_if :: "fs_state \<Rightarrow> bkey \<Rightarrow> nat option \<Rightarrow> fs_state" where
  "log_if s k tr = (case tr of None \<Rightarrow> s | Some t \<Rightarrow> add_to_transaction s k t)"

text \<open>\<open>transaction::commit_transaction\<close>: the loop over \<open>blocks\<close>.\<close>

fun commit_blocks :: "fs_state \<Rightarrow> transaction_diskblock list \<Rightarrow> fs_state" where
  "commit_blocks s [] = s"
| "commit_blocks s (b # bs) =
     commit_blocks (if dirty s (1, blocknum b) then writeback s (1, blocknum b) else s) bs"

definition commit_transaction :: "fs_state \<Rightarrow> transaction \<Rightarrow> fs_state" where
  "commit_transaction s t = commit_blocks s (blocks t)"

subsection \<open>Block allocator\<close>

definition bzero :: "fsconst \<Rightarrow> fs_state \<Rightarrow> u32 \<Rightarrow> u32 \<Rightarrow> bool \<Rightarrow> fs_state" where
  "bzero c s dv bno wb =
     (let s1 = buf_write s (dv, bno) (memset0 (bufs s (dv, bno)) (BSIZE c))
      in if wb then writeback_async s1 (dv, bno) else s1)"

text \<open>
  Modelled from the spec: \<open>rootfs_interface->alloc_block()\<close> and \<open>free_block(b)\<close> are not
  among the sources. \<open>alloc_block\<close> removes a free bit from the in-memory bitmap and
  returns its block number; when none is left it returns a number that is not below
  \<open>sb_root.size\<close>, which \<open>balloc\<close> turns into \<open>out_of_blocks\<close>. \<open>free_block\<close> marks the block
  free.
\<close>

definition alloc_block :: "fsconst \<Rightarrow> fs_state \<Rightarrow> u32 \<times> fs_state" where
  "alloc_block c s = (case free_list s of [] \<Rightarrow> (sb_size c, s)
                      | b # bs \<Rightarrow> (b, s\<lparr>free_list := bs\<rparr>))"


definition tx_allocated :: "fs_state \<Rightarrow> nat option \<Rightarrow> u32 \<Rightarrow> fs_state" where
  "tx_allocated s tr b = (case tr of None \<Rightarrow> s
     | Some t \<Rightarrow> s\<lparr>txs := (txs s)(t := add_allocated_block (txs s t) b)\<rparr>)"


definition balloc :: "fsconst \<Rightarrow> fs_state \<Rightarrow> u32 \<Rightarrow> nat option \<Rightarrow> bool \<Rightarrow> u32 result" where
  "balloc c s dv tr zero_on_alloc =
     (if dv = 1 then
        (case alloc_block c s of (b, s1) \<Rightarrow>
           if b < sb_size c then
             (let s2 = tx_allocated s1 tr b;
                  s3 = (if zero_on_alloc then bzero c s2 dv b False else s2)
              in Ret b s3)
           else Throw_out_of_blocks s1)
      else Throw_out_of_blocks s)"


subsection \<open>Block map\<close>

definition set_addr :: "fs_state \<Rightarrow> ikey \<Rightarrow> nat \<Rightarrow> u32 \<Rightarrow> fs_state" where
  "set_addr s ip k b = (case ins s ip of None \<Rightarrow> s
     | Some i \<Rightarrow> s\<lparr>ins := (ins s)(ip \<mapsto> i\<lparr>addrs := (addrs i)(k := b)\<rparr>)\<rparr>)"

text \<open>
  \<open>if (ip->addrs[k] == 0) ip->addrs[k] = balloc(ip->dev, tr, z); ... ip->addrs[k]\<close>
\<close>

definition bmap_addr :: "fsconst \<Rightarrow> fs_state \<Rightarrow> ikey \<Rightarrow> inode \<Rightarrow> nat \<Rightarrow> nat option \<Rightarrow> bool
    \<Rightarrow> u32 result" where
  "bmap_addr c s ip i k tr z =
     (if addrs i k = 0 then
        rbind (balloc c s (dev i) tr z) (\<lambda>b s1. Ret b (set_addr s1 ip k b))
      else Ret (addrs i k) s)"

text \<open>
  \<open>if (ap[k] == 0) { ap[k] = balloc(ip->dev, tr, z); if (tr)
  bp->add_to_transaction(tr); } ... ap[k]\<close>, where \<open>ap\<close> is the payload of block \<open>blk\<close>
  under its write guard.
\<close>

definition bmap_slot :: "fsconst \<Rightarrow> fs_state \<Rightarrow> u32 \<Rightarrow> u32 \<Rightarrow> nat \<Rightarrow> nat option \<Rightarrow> bool
    \<Rightarrow> u32 result" where
  "bmap_slot c s dv blk k tr z =
     (if ap_get (bufs s (dv, blk)) k = 0 then
        rbind (balloc c s dv tr z)
          (\<lambda>b s1. Ret b (log_if (buf_write s1 (dv, blk) (ap_set (bufs s1 (dv, blk)) k b))
                                (dv, blk) tr))
      else Ret (ap_get (bufs s (dv, blk)) k) (buf_touch s (dv, blk)))"

definition bmap :: "fsconst \<Rightarrow> fs_state \<Rightarrow> ikey \<Rightarrow> u32 \<Rightarrow> nat option \<Rightarrow> bool \<Rightarrow> u32 result" where
  "bmap c s ip bn tr zero_on_alloc =
     (case ins s ip of None \<Rightarrow> Panic ''null inode''
      | Some i \<Rightarrow>
        if unat bn < NDIRECT c then bmap_addr c s ip i (unat bn) tr zero_on_alloc
        else if unat bn - NDIRECT c < NINDIRECT c then
          rbind (bmap_addr c s ip i (NDIRECT c) tr True)
            (\<lambda>a s1. bmap_slot c s1 (dev i) a (unat bn - NDIRECT c) tr zero_on_alloc)
        else if unat bn - NDIRECT c - NINDIRECT c \<ge> NINDIRECT c * NINDIRECT c then
          Panic ''bmap: out of range''
        else
          rbind (bmap_addr c s ip i (NDIRECT c + 1) tr True)
            (\<lambda>f s1. rbind (bmap_slot c s1 (dev i) f
                        ((unat bn - NDIRECT c - NINDIRECT c) div NINDIRECT c) tr True)
               (\<lambda>sb s2. bmap_slot c s2 (dev i) sb
                        ((unat bn - NDIRECT c - NINDIRECT c) mod NINDIRECT c) tr zero_on_alloc)))"


subsection \<open>Reading and writing file contents\<close>

text \<open>
  The loop of \<open>readi\<close>. The counters \<open>tot\<close>, \<open>off\<close> and \<open>n\<close> are \<open>u32\<close> in the source; they
  never wrap inside the loop (\<open>off + n\<close> was checked before it), so they are natural
  numbers here. \<open>dst\<close> is the sequence of bytes stored at \<open>dst[0..tot)\<close> so far. A block
  size of zero would divide by zero.
\<close>

lemma chunk_decreases:
  fixes tot n B off :: nat
  assumes "tot < n" "0 < B"
  shows "n - (tot + min (n - tot) (B - off mod B)) < n - tot"
proof -
  have "off mod B < B" using assms(2) by simp
  then have "0 < min (n - tot) (B - off mod B)" using assms(1) by simp
  then show ?thesis using assms(1) by linarith
qed

function readi_loop :: "fsconst \<Rightarrow> fs_state \<Rightarrow> ikey \<Rightarrow> u32 \<Rightarrow> nat \<Rightarrow> nat \<Rightarrow> nat \<Rightarrow> u8 list
    \<Rightarrow> (cint \<times> u8 list) result" where
  "readi_loop c s ip dv off n tot dst =
     (if tot < n then
        (if BSIZE c = 0 then Panic ''division by zero''
         else case bmap c s ip (of_nat (off div BSIZE c)) None True of
             Throw_out_of_blocks s1 \<Rightarrow> Panic ''readi: out of blocks''
           | Panic msg \<Rightarrow> Panic msg
           | Ret b s1 \<Rightarrow>
               readi_loop c s1 ip dv (off + min (n - tot) (BSIZE c - off mod BSIZE c)) n
                 (tot + min (n - tot) (BSIZE c - off mod BSIZE c))
                 (dst @ map (bufs s1 (dv, b))
                    [off mod BSIZE c ..< off mod BSIZE c + min (n - tot) (BSIZE c - off mod BSIZE c)]))
      else Ret (of_nat n, dst) s)"
  by pat_completeness auto
termination
  by (relation "measure (\<lambda>(c, s, ip, dv, off, n, tot, dst). n - tot)")
     (auto intro: chunk_decreases)

declare readi_loop.simps [simp del]

definition readi :: "fsconst \<Rightarrow> fs_state \<Rightarrow> ikey \<Rightarrow> u32 \<Rightarrow> u32 \<Rightarrow> (cint \<times> u8 list) result" where
  "readi c s ip off n =
     (case ins s ip of None \<Rightarrow> Panic ''null inode''
      | Some i \<Rightarrow>
        if type i = T_DEV then Ret (- 1, []) s
        else if off > i_size i \<or> off + n < off then Ret (- 1, []) s
        else readi_loop c s ip (dev i) (unat off)
               (unat (if off + n > i_size i then i_size i - off else n)) 0 [])"

text \<open>
  The loop of \<open>writei\<close>; \<open>src\<close> is the caller's buffer and \<open>src + tot\<close> the current source
  pointer. \<open>write_block\<close> is the store into the buffer under its write guard
  (\<open>memmove\<close>, then \<open>add_to_transaction\<close> when the write is journaled) followed by
  \<open>writeback_async\<close> when it is direct. Catching \<open>out_of_blocks\<close> ends the loop with \<open>-1\<close> when nothing was written
  and with the bytes written so far otherwise.
\<close>

definition write_block :: "fs_state \<Rightarrow> bkey \<Rightarrow> nat \<Rightarrow> bytes \<Rightarrow> nat \<Rightarrow> nat \<Rightarrow> nat option \<Rightarrow> bool
    \<Rightarrow> fs_state" where
  "write_block s k boff src soff m tr wb =
     (let s2 = buf_write s k (memmove (bufs s k) boff src soff m);
          s3 = (if \<not> wb then log_if s2 k tr else s2)
      in if wb then writeback_async s3 k else s3)"

function writei_loop :: "fsconst \<Rightarrow> fs_state \<Rightarrow> ikey \<Rightarrow> u32 \<Rightarrow> bytes \<Rightarrow> nat \<Rightarrow> nat \<Rightarrow> nat
    \<Rightarrow> nat option \<Rightarrow> bool \<Rightarrow> cint result" where
  "writei_loop c s ip dv src off n tot tr wb =
     (if tot < n then
        (if BSIZE c = 0 then Panic ''division by zero''
         else case bmap c s ip (of_nat (off div BSIZE c)) tr
                     (\<not> (off mod BSIZE c = 0 \<and> min (n - tot) (BSIZE c - off mod BSIZE c) = BSIZE c)) of
             Throw_out_of_blocks s1 \<Rightarrow> Ret (if tot = 0 then - 1 else of_nat tot) s1
           | Panic msg \<Rightarrow> Panic msg
           | Ret bno s1 \<Rightarrow>
               writei_loop c
                 (write_block s1 (dv, bno) (off mod BSIZE c) src tot
                    (min (n - tot) (BSIZE c - off mod BSIZE c)) tr wb)
                 ip dv src (off + min (n - tot) (BSIZE c - off mod BSIZE c)) n
                 (tot + min (n - tot) (BSIZE c - off mod BSIZE c)) tr wb)
      else Ret (of_nat tot) s)"
  by pat_completeness auto
termination
  by (relation "measure (\<lambda>(c, s, ip, dv, src, off, n, tot, tr, wb). n - tot)")
     (auto intro: chunk_decreases)

declare writei_loop.simps [simp del]

definition writei :: "fsconst \<Rightarrow> fs_state \<Rightarrow> ikey \<Rightarrow> bytes \<Rightarrow> u32 \<Rightarrow> u32 \<Rightarrow> nat option \<Rightarrow> bool
    \<Rightarrow> cint result" where
  "writei c s ip src off n tr wb =
     (case ins s ip of None \<Rightarrow> Panic ''null inode''
      | Some i \<Rightarrow>
        if type i = T_DEV then Ret (- 1) s
        else if off + n < off then Ret (- 1) s
        else writei_loop c s ip (dev i) src (unat off)
               (unat (if unat (off + n) > MAXFILE c * BSIZE c
                      then of_nat (MAXFILE c * BSIZE c) - off else n)) 0 tr wb)"

subsection \<open>Writing inode metadata\<close>

text \<open>
  Modelled from the spec: \<open>struct dinode\<close> is \<open>{type, major, minor, nlink, size, gen,
  addrs[NDIRECT+2]}\<close>, four \<open>short\<close>s followed by \<open>u32\<close>s, at slot \<open>inum % IPB\<close> of block
  \<open>IBLOCK(inum)\<close>.
\<close>

definition dinode_off :: "fsconst \<Rightarrow> u32 \<Rightarrow> nat" where
  "dinode_off c i = (unat i mod IPB c) * sizeof_dinode c"

definition put_dinode :: "fsconst \<Rightarrow> bytes \<Rightarrow> nat \<Rightarrow> inode \<Rightarrow> bytes" where
  "put_dinode c d p i =
     fold (\<lambda>k d. put_u32 d (p + 16 + 4 * k) (addrs i k)) [0 ..< NDIRECT c + 2]
       (put_u32 (put_u32 (put_u16 (put_u16 (put_u16 (put_u16 d p (type i)) (p + 2) (major i))
          (p + 4) (minor i)) (p + 6) (i_nlink i)) (p + 8) (i_size i)) (p + 12) (gen i))"

definition iupdate :: "fsconst \<Rightarrow> fs_state \<Rightarrow> ikey \<Rightarrow> nat option \<Rightarrow> unit result" where
  "iupdate c s ip tr =
     (case ins s ip of None \<Rightarrow> Panic ''null inode''
      | Some i \<Rightarrow>
        Ret () (log_if (buf_write s (dev i, IBLOCK c (inum i))
                          (put_dinode c (bufs s (dev i, IBLOCK c (inum i))) (dinode_off c (inum i)) i))
                       (dev i, IBLOCK c (inum i)) tr))"



subsection \<open>Truncation\<close>

text \<open>
  \<open>itrunc\<close> calls \<open>bp->add_to_transaction(trans)\<close> without testing \<open>trans\<close>; the call
  dereferences the transaction, so a null one is a fault.
\<close>

definition add_to_transaction_ptr :: "fs_state \<Rightarrow> bkey \<Rightarrow> nat option \<Rightarrow> unit result" where
  "add_to_transaction_ptr s k tr =
     (case tr of None \<Rightarrow> Panic ''null transaction''
      | Some t \<Rightarrow> Ret () (add_to_transaction s k t))"












subsection \<open>The inode cache\<close>

text \<open>
  \<open>inode::init\<close> loads the metadata from the inode's \<open>dinode\<close> slot. The reference count
  follows the calls of \<open>inc()\<close> and \<open>dec()\<close> written in \<open>fs.cc\<close>; the counting done by the
  \<open>sref\<close> handles themselves is not modelled.
\<close>

definition inode_init :: "fsconst \<Rightarrow> fs_state \<Rightarrow> ikey \<Rightarrow> fs_state" where
  "inode_init c s ip =
     (case ins s ip of None \<Rightarrow> s
      | Some i \<Rightarrow>
        (let d = bufs s (dev i, IBLOCK c (inum i)); p = dinode_off c (inum i)
         in s\<lparr>ins := (ins s)(ip \<mapsto> i\<lparr>
              type := get_u16 d p, major := get_u16 d (p + 2), minor := get_u16 d (p + 4),
              i_nlink := get_u16 d (p + 6), i_size := get_u32 d (p + 8), gen := get_u32 d (p + 12),
              addrs := (\<lambda>k. if k < NDIRECT c + 2 then get_u32 d (p + 16 + 4 * k) else addrs i k),
              refcount := refcount i + (if 0 < sint (get_u16 d (p + 6)) then 1 else 0) + 1,
              valid := True\<rparr>)\<rparr>))"

definition iunlock :: "fs_state \<Rightarrow> ikey \<Rightarrow> unit result" where
  "iunlock s ip =
     (case ins s ip of None \<Rightarrow> Panic ''iunlock(): illegal inode pointer''
      | Some i \<Rightarrow>
        if readbusy i = 0 \<and> \<not> busy i then Panic ''iunlock(): inode not locked''
        else Ret () (s\<lparr>ins := (ins s)(ip \<mapsto> i\<lparr>readbusy := readbusy i - 1, busy := False\<rparr>)\<rparr>))"

text \<open>
  \<open>iget\<close>: a cached inode is returned as it is (waiting for \<open>valid\<close> concerns other
  threads); otherwise a fresh object is inserted locked, loaded and unlocked. The
  constructor leaves the metadata fields unset until \<open>init\<close> fills them.
\<close>

definition iget :: "fsconst \<Rightarrow> fs_state \<Rightarrow> u32 \<Rightarrow> u32 \<Rightarrow> ikey result" where
  "iget c s dv inm =
     (case ins s (dv, inm) of Some i \<Rightarrow> Ret (dv, inm) s
      | None \<Rightarrow>
        rbind (iunlock
                 (inode_init c
                    (s\<lparr>ins := (ins s)((dv, inm) \<mapsto>
                        \<lparr>dev = dv, inum = inm, gen = 0, type = 0, major = 0, minor = 0,
                         valid = False, busy = True, readbusy = 1, i_size = 0, addrs = (\<lambda>_. 0),
                         i_nlink = 0, dir = None, dir_offset = 0, refcount = 1\<rparr>)\<rparr>)
                    (dv, inm))
                 (dv, inm))
          (\<lambda>_ s1. Ret (dv, inm) s1))"

text \<open>\<open>inode::link\<close> and \<open>inode::unlink\<close>.\<close>

definition link :: "fs_state \<Rightarrow> ikey \<Rightarrow> fs_state" where
  "link s ip = (case ins s ip of None \<Rightarrow> s
     | Some i \<Rightarrow> s\<lparr>ins := (ins s)(ip \<mapsto> i\<lparr>i_nlink := i_nlink i + 1,
         refcount := (if i_nlink i + 1 = 1 then refcount i + 1 else refcount i)\<rparr>)\<rparr>)"

definition unlink :: "fs_state \<Rightarrow> ikey \<Rightarrow> fs_state" where
  "unlink s ip = (case ins s ip of None \<Rightarrow> s
     | Some i \<Rightarrow> s\<lparr>ins := (ins s)(ip \<mapsto> i\<lparr>i_nlink := i_nlink i - 1,
         refcount := (if i_nlink i - 1 = 0 then refcount i - 1 else refcount i)\<rparr>)\<rparr>)"

subsection \<open>Directories\<close>

text \<open>
  A name is the string before the terminating NUL. \<open>strbuf<DIRSIZ>(name)\<close> keeps at most
  \<open>DIRSIZ\<close> characters, and \<open>strncmp(a, b, DIRSIZ) == 0\<close> compares that many.
\<close>

definition strbuf :: "fsconst \<Rightarrow> string \<Rightarrow> string" where
  "strbuf c name = take (DIRSIZ c) name"

definition strncmp_eq :: "string \<Rightarrow> string \<Rightarrow> nat \<Rightarrow> bool" where
  "strncmp_eq a b n = (take n a = take n b)"

definition de_info_default :: dir_entry_info where
  "de_info_default = \<lparr>de_inum = 0, de_offset = 0\<rparr>"

definition dir_lookup :: "dir_entries \<Rightarrow> string \<Rightarrow> dir_entry_info" where
  "dir_lookup d k = (case d k of None \<Rightarrow> de_info_default | Some e \<Rightarrow> e)"

definition dir_insert :: "dir_entries \<Rightarrow> string \<Rightarrow> dir_entry_info \<Rightarrow> bool \<times> dir_entries" where
  "dir_insert d k v = (if d k = None then (True, d(k \<mapsto> v)) else (False, d))"

definition dir_remove :: "dir_entries \<Rightarrow> string \<Rightarrow> bool \<times> dir_entries" where
  "dir_remove d k = (if d k = None then (False, d) else (True, d(k := None)))"

definition set_dir :: "fs_state \<Rightarrow> ikey \<Rightarrow> dir_entries \<Rightarrow> fs_state" where
  "set_dir s ip d = (case ins s ip of None \<Rightarrow> s
     | Some i \<Rightarrow> s\<lparr>ins := (ins s)(ip \<mapsto> i\<lparr>dir := Some d\<rparr>)\<rparr>)"

text \<open>
  Modelled from the spec: \<open>struct dirent\<close> is the packed record \<open>{inum: u32,
  name: char[DIRSIZ]}\<close>; a name shorter than \<open>DIRSIZ\<close> is NUL-padded.
\<close>

definition dirent_name :: "fsconst \<Rightarrow> bytes \<Rightarrow> nat \<Rightarrow> string" where
  "dirent_name c d p =
     map (\<lambda>b. char_of (unat b)) (takeWhile (\<lambda>b. b \<noteq> 0) (map d [p + 4 ..< p + 4 + DIRSIZ c]))"

definition dirent_bytes :: "fsconst \<Rightarrow> u32 \<Rightarrow> string \<Rightarrow> bytes" where
  "dirent_bytes c inm name =
     put_u32 (\<lambda>k. if 4 \<le> k \<and> k - 4 < length (strbuf c name)
                  then of_nat (of_char (strbuf c name ! (k - 4))) else 0) 0 inm"

text \<open>
  The scan of one block in \<open>dir_init\<close>: \<open>p\<close> is the byte position of \<open>de\<close> in the block.
  The loop tests only where an entry starts (\<open>de < copy->data + BSIZE\<close>): an entry that
  starts inside the block and ends beyond it is read all the same, from the bytes that
  lie behind the payload.
\<close>

function dir_scan :: "fsconst \<Rightarrow> bytes \<Rightarrow> dir_entries \<Rightarrow> nat \<Rightarrow> u32 \<Rightarrow> dir_entries \<times> u32" where
  "dir_scan c d idx p dir_off =
     (if p < BSIZE c then
        dir_scan c d
          (if get_u32 d p \<noteq> 0
           then snd (dir_insert idx (dirent_name c d p)
                       \<lparr>de_inum = get_u32 d p, de_offset = dir_off\<rparr>)
           else idx)
          (p + sizeof_dirent c) (dir_off + of_nat (sizeof_dirent c))
      else (idx, dir_off))"
  by pat_completeness auto
termination
  by (relation "measure (\<lambda>(c, d, idx, p, dir_off). BSIZE c - p)") (auto simp: sizeof_dirent_def)

declare dir_scan.simps [simp del]

text \<open>
  The loop of \<open>dir_init\<close> over the blocks of the directory. \<open>off\<close> is a \<open>u32\<close>: in a
  directory of more than \<open>2^32 - BSIZE\<close> bytes it wraps and the loop does not end, which
  is reported as a panic of its own.
\<close>

function dir_init_loop :: "fsconst \<Rightarrow> fs_state \<Rightarrow> ikey \<Rightarrow> u32 \<Rightarrow> nat \<Rightarrow> nat \<Rightarrow> u32 \<Rightarrow> u32 result" where
  "dir_init_loop c s dp dv off sz dir_off =
     (if off < sz then
        (if BSIZE c = 0 then Panic ''division by zero''
         else if unat dir_off \<noteq> off then Panic ''assertion failed: dir_offset == off''
         else case bmap c s dp (of_nat (off div BSIZE c)) None True of
             Throw_out_of_blocks s1 \<Rightarrow> Panic ''dir_init: out of blocks''
           | Panic msg \<Rightarrow> Panic msg
           | Ret b s1 \<Rightarrow>
               (case ins s1 dp of None \<Rightarrow> Panic ''null inode''
                | Some i \<Rightarrow>
                  (case dir_scan c (bufs s1 (dv, b)) (case dir i of None \<Rightarrow> Map.empty | Some d \<Rightarrow> d)
                          0 dir_off of
                     (idx, dir_off1) \<Rightarrow>
                       if 2 ^ 32 \<le> off + BSIZE c then Panic ''dir_init: offset wraps''
                       else dir_init_loop c (set_dir s1 dp idx) dp dv (off + BSIZE c) sz dir_off1)))
      else Ret dir_off s)"
  by pat_completeness auto
termination
  by (relation "measure (\<lambda>(c, s, dp, dv, off, sz, dir_off). sz - off)") auto

declare dir_init_loop.simps [simp del]

definition dir_init :: "fsconst \<Rightarrow> fs_state \<Rightarrow> ikey \<Rightarrow> unit result" where
  "dir_init c s dp =
     (case ins s dp of None \<Rightarrow> Panic ''null inode''
      | Some i \<Rightarrow>
        if dir i \<noteq> None then Ret () s
        else if type i \<noteq> T_DIR then Panic ''dir_init: inode is not a directory''
        else rbind (dir_init_loop c (set_dir s dp Map.empty) dp (dev i) 0 (unat (i_size i)) 0)
               (\<lambda>dir_off s1. case ins s1 dp of None \<Rightarrow> Panic ''null inode''
                  | Some i1 \<Rightarrow> Ret () (s1\<lparr>ins := (ins s1)(dp \<mapsto> i1\<lparr>dir_offset := dir_off\<rparr>)\<rparr>)))"

text \<open>
  \<open>dir_flush_entry\<close>; the call of \<open>writei\<close> leaves \<open>writeback\<close> at its default \<open>false\<close>.
\<close>

definition dir_flush_entry :: "fsconst \<Rightarrow> fs_state \<Rightarrow> ikey \<Rightarrow> string \<Rightarrow> nat option \<Rightarrow> unit result" where
  "dir_flush_entry c s dp name tr =
     (case ins s dp of None \<Rightarrow> Panic ''null inode''
      | Some i \<Rightarrow>
        (case dir i of None \<Rightarrow> Ret () s
         | Some d \<Rightarrow>
           (let de_info = dir_lookup d (strbuf c name)
            in rbind (writei c s dp (dirent_bytes c (de_inum de_info) name) (de_offset de_info)
                        (of_nat (sizeof_dirent c)) tr False)
                 (\<lambda>r s1. if r \<noteq> of_nat (sizeof_dirent c) then Panic ''dir_flush_entry''
                    else case ins s1 dp of None \<Rightarrow> Panic ''null inode''
                      | Some i1 \<Rightarrow>
                        iupdate c
                          (if unat (i_size i1) < unat (de_offset de_info) + sizeof_dirent c
                           then s1\<lparr>ins := (ins s1)(dp \<mapsto>
                                  i1\<lparr>i_size := de_offset de_info + of_nat (sizeof_dirent c)\<rparr>)\<rparr>
                           else s1)
                          dp tr))))"

definition dirlookup :: "fsconst \<Rightarrow> fs_state \<Rightarrow> ikey \<Rightarrow> string \<Rightarrow> ikey option result" where
  "dirlookup c s dp name =
     rbind (dir_init c s dp)
       (\<lambda>_ s1. case ins s1 dp of None \<Rightarrow> Panic ''null inode''
          | Some i \<Rightarrow>
            (case dir i of None \<Rightarrow> Panic ''null dir''
             | Some d \<Rightarrow>
               if de_inum (dir_lookup d (strbuf c name)) = 0 then Ret None s1
               else rbind (iget c s1 (dev i) (de_inum (dir_lookup d (strbuf c name))))
                      (\<lambda>ip s2. Ret (Some ip) s2)))"

text \<open>
  \<open>dirlink\<close>. The statement \<open>if (!dp->dir->insert(strbuf<DIRSIZ>(name), de_info));\<close> ends
  at its semicolon, so \<open>return -1;\<close> on the next line is not guarded by it: the insertion
  is attempted and the function returns \<open>-1\<close>. The statements after the \<open>return\<close> (the
  advance of \<open>dir_offset\<close>, the link counts and \<open>dir_flush_entry\<close>) are never reached.
\<close>

definition dirlink :: "fsconst \<Rightarrow> fs_state \<Rightarrow> ikey \<Rightarrow> string \<Rightarrow> u32 \<Rightarrow> bool \<Rightarrow> nat option
    \<Rightarrow> cint result" where
  "dirlink c s dp name inm inc_link tr =
     rbind (dir_init c s dp)
       (\<lambda>_ s1. case ins s1 dp of None \<Rightarrow> Panic ''null inode''
          | Some i \<Rightarrow>
            (case dir i of None \<Rightarrow> Panic ''null dir''
             | Some d \<Rightarrow>
               Ret (- 1) (set_dir s1 dp
                  (snd (dir_insert d (strbuf c name) \<lparr>de_inum = inm, de_offset = dir_offset i\<rparr>)))))"

text \<open>\<open>dirunlink\<close>.\<close>

definition dirunlink :: "fsconst \<Rightarrow> fs_state \<Rightarrow> ikey \<Rightarrow> string \<Rightarrow> u32 \<Rightarrow> bool \<Rightarrow> nat option
    \<Rightarrow> cint result" where
  "dirunlink c s dp name inm dec_link tr =
     rbind (dir_init c s dp)
       (\<lambda>_ s1. case ins s1 dp of None \<Rightarrow> Panic ''null inode''
          | Some i \<Rightarrow>
            (case dir i of None \<Rightarrow> Panic ''null dir''
             | Some d \<Rightarrow>
               (let de_info = dir_lookup d (strbuf c name)
                in case dir_remove d (strbuf c name) of
                     (False, d1) \<Rightarrow> Ret (- 1) s1
                   | (True, d1) \<Rightarrow>
                     (case dir_insert d1 (strbuf c name) (de_info\<lparr>de_inum := 0\<rparr>) of
                        (False, d2) \<Rightarrow> Ret (- 1) (set_dir s1 dp d2)
                      | (True, d2) \<Rightarrow>
                        rbind (if \<not> strncmp_eq name ''..'' (DIRSIZ c)
                               then rbind (iget c (set_dir s1 dp d2) 1 inm)
                                      (\<lambda>ip s2. Ret () (if dec_link then unlink (unlink s2 ip) dp
                                                       else unlink s2 ip))
                               else Ret () (set_dir s1 dp d2))
                          (\<lambda>_ s3. rbind (dir_flush_entry c s3 dp name tr)
                             (\<lambda>_ s4. case ins s4 dp of None \<Rightarrow> Panic ''null inode''
                                | Some i4 \<Rightarrow>
                                  (case dir i4 of None \<Rightarrow> Panic ''null dir''
                                   | Some d4 \<Rightarrow>
                                     Ret 0 (set_dir s4 dp (snd (dir_remove d4 (strbuf c name)))))))))))"


subsection \<open>Paths\<close>

text \<open>
  \<open>skipelem\<close>: a path is the string before its terminating NUL. The result is the return
  value, the new \<open>*rpath\<close> and the contents of the buffer \<open>name\<close> (read as
  \<open>strbuf<DIRSIZ>(name)\<close>); on the returns \<open>0\<close> and \<open>-1\<close> both are left as they were.
\<close>

definition skipelem :: "fsconst \<Rightarrow> string \<Rightarrow> string \<Rightarrow> int \<times> string \<times> string" where
  "skipelem c path name =
     (let p1 = dropWhile (\<lambda>x. x = CHR ''/'') path
      in if p1 = [] then (0, path, name)
         else if length (takeWhile (\<lambda>x. x \<noteq> CHR ''/'') p1) > DIRSIZ c then (- 1, path, name)
         else (1, dropWhile (\<lambda>x. x = CHR ''/'') (dropWhile (\<lambda>x. x \<noteq> CHR ''/'') p1),
               takeWhile (\<lambda>x. x \<noteq> CHR ''/'') p1))"

text \<open>\<open>the_root\<close> is the inode \<open>(ROOTDEV, ROOTINO)\<close>.\<close>

definition the_root :: ikey where
  "the_root = (1, 1)"

text \<open>
  The loop of \<open>namex\<close>. The result is the inode returned (\<open>None\<close> for the empty
  \<open>sref\<close>) and the contents of \<open>name\<close>.
\<close>

lemma skipelem_shorter:
  assumes "skipelem c path name = (1, path1, name1)"
  shows "length path1 < length path"
proof -
  let ?p1 = "dropWhile (\<lambda>x. x = CHR ''/'') path"
  from assms have ne: "?p1 \<noteq> []"
    by (simp add: skipelem_def Let_def split: if_splits)
  from assms have p: "path1 = dropWhile (\<lambda>x. x = CHR ''/'') (dropWhile (\<lambda>x. x \<noteq> CHR ''/'') ?p1)"
    by (simp add: skipelem_def Let_def split: if_splits)
  from ne obtain x xs where p1: "?p1 = x # xs" by (cases ?p1) simp_all
  have "\<not> (hd ?p1 = CHR ''/'')" using ne by (rule hd_dropWhile)
  then have x: "x \<noteq> CHR ''/''" by (simp add: p1)
  have "length path1 \<le> length (dropWhile (\<lambda>x. x \<noteq> CHR ''/'') ?p1)"
    unfolding p by (rule length_dropWhile_le)
  also have "dropWhile (\<lambda>x. x \<noteq> CHR ''/'') ?p1 = dropWhile (\<lambda>x. x \<noteq> CHR ''/'') xs"
    unfolding p1 using x by simp
  also have "length \<dots> \<le> length xs" by (rule length_dropWhile_le)
  also have "length xs < length ?p1" unfolding p1 by simp
  also have "length ?p1 \<le> length path" by (rule length_dropWhile_le)
  finally show ?thesis .
qed

function namex_loop :: "fsconst \<Rightarrow> fs_state \<Rightarrow> ikey \<Rightarrow> string \<Rightarrow> bool \<Rightarrow> string
    \<Rightarrow> (ikey option \<times> string) result" where
  "namex_loop c s ip path nameiparent name =
     (case skipelem c path name of
        (r, path1, name1) \<Rightarrow>
          if r = 1 then
            (case ins s ip of None \<Rightarrow> Panic ''null inode''
             | Some i \<Rightarrow>
               if type i = 0 then Panic ''namex''
               else if type i \<noteq> T_DIR then Ret (None, name1) s
               else if nameiparent \<and> path1 = [] then Ret (Some ip, name1) s
               else
                 (case dirlookup c s ip name1 of
                    Panic msg \<Rightarrow> Panic msg
                  | Throw_out_of_blocks s1 \<Rightarrow> Throw_out_of_blocks s1
                  | Ret nxt s1 \<Rightarrow>
                      (case nxt of None \<Rightarrow> Ret (None, name1) s1
                       | Some ip1 \<Rightarrow> namex_loop c s1 ip1 path1 nameiparent name1)))
          else if r = - 1 \<or> nameiparent then Ret (None, name1) s
          else Ret (Some ip, name1) s)"
  by pat_completeness auto
termination
  apply (relation "measure (\<lambda>(c, s, ip, path, nameiparent, name). length path)")
  apply simp
  apply clarsimp
  apply (erule skipelem_shorter [OF sym])
  done

declare namex_loop.simps [simp del]

definition namex :: "fsconst \<Rightarrow> fs_state \<Rightarrow> ikey \<Rightarrow> string \<Rightarrow> bool \<Rightarrow> string
    \<Rightarrow> (ikey option \<times> string) result" where
  "namex c s cwd path nameiparent name =
     namex_loop c s (if path \<noteq> [] \<and> hd path = CHR ''/'' then the_root else cwd)
       path nameiparent name"

definition namei :: "fsconst \<Rightarrow> fs_state \<Rightarrow> ikey \<Rightarrow> string \<Rightarrow> (ikey option \<times> string) result" where
  "namei c s cwd path = namex c s cwd path False []"

definition nameiparent :: "fsconst \<Rightarrow> fs_state \<Rightarrow> ikey \<Rightarrow> string \<Rightarrow> string
    \<Rightarrow> (ikey option \<times> string) result" where
  "nameiparent c s cwd path name = namex c s cwd path True name"

subsection \<open>The on-disk bitmap\<close>

text \<open>
  The inner \<open>do ... while\<close> of \<open>balloc_free_on_disk\<close> on the payload of one bitmap block,
  over the block numbers of one group; \<open>Inl\<close> is the panic.
\<close>

fun apply_bits :: "fsconst \<Rightarrow> bool \<Rightarrow> bytes \<Rightarrow> u32 list \<Rightarrow> string + bytes" where
  "apply_bits c alloc d [] = Inr d"
| "apply_bits c alloc d (b # bs) =
     (let bi = unat b mod BPB c; m = (push_bit (bi mod 8) 1 :: u8)
      in if alloc then
           (if d (bi div 8) AND m \<noteq> 0 then Inl ''balloc_free_on_disk: block already in use''
            else apply_bits c alloc (d(bi div 8 := d (bi div 8) OR m)) bs)
         else
           (if d (bi div 8) AND m = 0 then Inl ''balloc_free_on_disk: block already free''
            else apply_bits c alloc (d(bi div 8 := d (bi div 8) AND NOT m)) bs))"

text \<open>
  The outer loop: the group of the first block number \<open>b\<close> is \<open>b\<close> and the following
  ones up to \<open>max_bno = b | (BPB - 1)\<close>.
\<close>

function bitmap_groups :: "fsconst \<Rightarrow> fs_state \<Rightarrow> u32 list \<Rightarrow> nat option \<Rightarrow> bool \<Rightarrow> unit result" where
  "bitmap_groups c s [] tr alloc = Ret () s"
| "bitmap_groups c s (b # rest) tr alloc =
     (case apply_bits c alloc (bufs s (1, BBLOCK c b (sb_ninodes c)))
             (b # takeWhile (\<lambda>x. x \<le> b OR of_nat (BPB c - 1)) rest) of
        Inl msg \<Rightarrow> Panic msg
      | Inr d \<Rightarrow>
          (case add_to_transaction_ptr (buf_write s (1, BBLOCK c b (sb_ninodes c)) d)
                  (1, BBLOCK c b (sb_ninodes c)) tr of
             Ret _ s1 \<Rightarrow> bitmap_groups c s1 (dropWhile (\<lambda>x. x \<le> b OR of_nat (BPB c - 1)) rest) tr alloc
           | Throw_out_of_blocks s1 \<Rightarrow> Throw_out_of_blocks s1
           | Panic msg \<Rightarrow> Panic msg))"
  by pat_completeness auto
termination
  by (relation "measure (\<lambda>(c, s, blks, tr, alloc). length blks)")
     (simp_all add: less_Suc_eq_le length_dropWhile_le)

declare bitmap_groups.simps [simp del]

text \<open>
  \<open>balloc_free_on_disk\<close>: the vector is sorted in place first; the result carries the
  sorted vector.
\<close>

definition balloc_free_on_disk :: "fsconst \<Rightarrow> fs_state \<Rightarrow> u32 list \<Rightarrow> nat option \<Rightarrow> bool
    \<Rightarrow> u32 list result" where
  "balloc_free_on_disk c s blks tr alloc =
     rbind (bitmap_groups c s (sort blks) tr alloc) (\<lambda>_ s1. Ret (sort blks) s1)"


section \<open>Observers and a concrete file system\<close>

text \<open>
  The value and the final state of an outcome, the snapshots that a transaction holds for
  one block number, and a small file system: blocks of 64 bytes, two direct and sixteen
  indirect entries, names of four characters, a root directory \<open>(1, 1)\<close> with an empty
  index and an empty regular file \<open>(1, 2)\<close>.
\<close>

definition result_value :: "'a result \<Rightarrow> 'a option" where
  "result_value r = (case r of Ret x s \<Rightarrow> Some x | _ \<Rightarrow> None)"

definition result_state :: "'a result \<Rightarrow> fs_state option" where
  "result_state r = (case r of Ret x s \<Rightarrow> Some s | Throw_out_of_blocks s \<Rightarrow> Some s | Panic m \<Rightarrow> None)"

definition snapshots_of :: "transaction \<Rightarrow> u32 \<Rightarrow> transaction_diskblock list" where
  "snapshots_of t n = filter (\<lambda>b. blocknum b = n) (blocks t)"

definition const_block :: "u8 \<Rightarrow> bytes" where
  "const_block v = (\<lambda>_. v)"

definition ex_c :: fsconst where
  "ex_c = \<lparr>BSIZE = 64, NDIRECT = 2, NINDIRECT = 16, DIRSIZ = 4, sb_size = 1024, sb_ninodes = 16\<rparr>"

definition ex_inode :: "u32 \<Rightarrow> short \<Rightarrow> u32 \<Rightarrow> inode" where
  "ex_inode inm ty sz = \<lparr>dev = 1, inum = inm, gen = 0, type = ty, major = 0, minor = 0,
     valid = True, busy = False, readbusy = 0, i_size = sz, addrs = (\<lambda>_. 0), i_nlink = 1,
     dir = None, dir_offset = 0, refcount = 2\<rparr>"

definition ex_state :: fs_state where
  "ex_state = \<lparr>ins = [(1, 1) \<mapsto> (ex_inode 1 T_DIR 0)\<lparr>dir := Some Map.empty\<rparr>,
                      (1, 2) \<mapsto> ex_inode 2 T_FILE 0],
     bufs = (\<lambda>_. const_block 0), dirty = (\<lambda>_. False), disk = (\<lambda>_. const_block 0),
     disk_writes = [], free_list = [100, 101, 102, 103, 104, 105, 106, 107],
     txs = (\<lambda>_. new_transaction 0), tsc = 0\<rparr>"

definition ex_tx :: transaction where
  "ex_tx = add_block (add_block (new_transaction 0)
      \<lparr>blocknum = 5, blockdata = const_block 1, timestamp = 0\<rparr>)
      \<lparr>blocknum = 5, blockdata = const_block 2, timestamp = 1\<rparr>"


section \<open>Transactions: one snapshot per block number?\<close>

lemma commit_blocks_writes:
  "\<exists>ws. disk_writes (commit_blocks s bs) = disk_writes s @ ws
      \<and> (\<forall>n. count_list ws (1, n) = (if n \<in> blocknum ` set bs \<and> dirty s (1, n) then 1 else 0))
      \<and> (\<forall>k. dirty (commit_blocks s bs) k = (dirty s k \<and> k \<notin> (\<lambda>b. (1, blocknum b)) ` set bs))"
proof (induction bs arbitrary: s)
  case Nil
  then show ?case by simp
next
  case (Cons b bs)
  let ?s1 = "if dirty s (1, blocknum b) then writeback s (1, blocknum b) else s"
  from Cons.IH [of ?s1] obtain ws where
    w: "disk_writes (commit_blocks ?s1 bs) = disk_writes ?s1 @ ws"
    and c: "\<And>n. count_list ws (1, n) = (if n \<in> blocknum ` set bs \<and> dirty ?s1 (1, n) then 1 else 0)"
    and d: "\<And>k. dirty (commit_blocks ?s1 bs) k = (dirty ?s1 k \<and> k \<notin> (\<lambda>b. (1, blocknum b)) ` set bs)"
    by blast
  show ?case
  proof (cases "dirty s (1, blocknum b)")
    case True
    have "disk_writes (commit_blocks s (b # bs)) = disk_writes s @ ((1, blocknum b) # ws)"
      using w True by (simp add: writeback_def)
    moreover have "\<And>n. count_list ((1, blocknum b) # ws) (1, n)
        = (if n \<in> blocknum ` set (b # bs) \<and> dirty s (1, n) then 1 else 0)"
      using c True by (auto simp: writeback_def)
    moreover have "\<And>k. dirty (commit_blocks s (b # bs)) k
        = (dirty s k \<and> k \<notin> (\<lambda>b. (1, blocknum b)) ` set (b # bs))"
      using d True by (auto simp: writeback_def)
    ultimately show ?thesis by blast
  next
    case False
    have "disk_writes (commit_blocks s (b # bs)) = disk_writes s @ ws"
      using w False by simp
    moreover have "\<And>n. count_list ws (1, n)
        = (if n \<in> blocknum ` set (b # bs) \<and> dirty s (1, n) then 1 else 0)"
      using c False by auto
    moreover have "\<And>k. dirty (commit_blocks s (b # bs)) k
        = (dirty s k \<and> k \<notin> (\<lambda>b. (1, blocknum b)) ` set (b # bs))"
      using d False by auto
    ultimately show ?thesis by blast
  qed
qed


text \<open>
  C4, as the code has it. \<open>add_block\<close> appends: the snapshots of the new block's number
  grow by one and nothing is replaced, so a transaction may hold several snapshots of
  one block number. \<open>commit_transaction\<close> walks the snapshots in order and writes back the
  buffer of each one that is dirty at that moment: every block number is written at most
  once, exactly once when it is in the transaction and its buffer was dirty at the
  start of the commit, and not at all otherwise.
\<close>

theorem add_block_appends_commit_writes_dirty_once:
  "blocks (add_block t b) = blocks t @ [b]
   \<and> length (snapshots_of (add_block t b) (blocknum b)) = Suc (length (snapshots_of t (blocknum b)))
   \<and> count_list (drop (length (disk_writes s)) (disk_writes (commit_transaction s t))) (1, n)
       = (if n \<in> blocknum ` set (blocks t) \<and> dirty s (1, n) then 1 else 0)"
proof -
  obtain ws where "disk_writes (commit_blocks s (blocks t)) = disk_writes s @ ws"
    and "\<And>n. count_list ws (1, n) = (if n \<in> blocknum ` set (blocks t) \<and> dirty s (1, n) then 1 else 0)"
    using commit_blocks_writes [of s "blocks t"] by blast
  then show ?thesis
    by (simp add: add_block_def snapshots_of_def commit_transaction_def)
qed


text \<open>
  C4 as stated fails: after two \<open>add_block\<close> calls for block 5 the transaction holds two
  snapshots of block 5.
\<close>

theorem add_block_duplicate_counterexample:
  "\<not> length (snapshots_of ex_tx 5) \<le> 1"
  by (simp add: ex_tx_def add_block_def new_transaction_def snapshots_of_def)

theorem add_block_appends_commit_writes_dirty_once_witness:
  "length (snapshots_of ex_tx 5) = 2
   \<and> count_list (disk_writes (commit_transaction (buf_touch ex_state (1, 5)) ex_tx)) (1, 5) = 1
   \<and> count_list (disk_writes (commit_transaction ex_state ex_tx)) (1, 5) = 0"
  using add_block_appends_commit_writes_dirty_once
          [where s = "buf_touch ex_state (1, 5)" and t = ex_tx and n = 5]
        add_block_appends_commit_writes_dirty_once [where s = ex_state and t = ex_tx and n = 5]
  by (simp add: ex_tx_def add_block_def new_transaction_def snapshots_of_def buf_touch_def ex_state_def)


section \<open>Directory link and unlink\<close>

lemma dirlink_never_succeeds:
  "dirlink c s dp name inm inc_link tr \<noteq> Ret 0 s'"
  by (auto simp: dirlink_def rbind_def split: result.splits option.splits)


text \<open>
  C1: \<open>dirlink\<close> of a name that is not in the index. In the root directory of the
  concrete file system, whose index is empty, \<open>dirlink(dp, "a", 2, true, NULL)\<close> returns
  \<open>-1\<close>: the entry \<open>(2, 0)\<close> is inserted into the index, but \<open>dir_offset\<close> stays 0 and the
  link count of inode 2 stays 1.
\<close>

theorem dirlink_fresh_name_returns_minus_one:
  "result_value (dirlink ex_c ex_state (1, 1) ''a'' 2 True None) = Some (- 1)
   \<and> map_option (\<lambda>s. map_option dir_offset (ins s (1, 1)))
        (result_state (dirlink ex_c ex_state (1, 1) ''a'' 2 True None)) = Some (Some 0)
   \<and> map_option (\<lambda>s. map_option i_nlink (ins s (1, 2)))
        (result_state (dirlink ex_c ex_state (1, 1) ''a'' 2 True None)) = Some (Some 1)
   \<and> map_option (\<lambda>s. map_option (\<lambda>i. map_option (\<lambda>d. d ''a'') (dir i)) (ins s (1, 1)))
        (result_state (dirlink ex_c ex_state (1, 1) ''a'' 2 True None))
        = Some (Some (Some (Some \<lparr>de_inum = 2, de_offset = 0\<rparr>)))"
  by (simp add: dirlink_def dir_init_def rbind_def ex_state_def ex_inode_def result_value_def
        result_state_def set_dir_def dir_insert_def strbuf_def ex_c_def)


text \<open>
  C9: in a directory whose index has no entry for the name, \<open>dirunlink\<close> returns \<open>-1\<close>
  and the whole state (index, \<open>dir_offset\<close>, sizes, link counts, buffers, disk,
  transactions) is the one before the call.
\<close>

theorem dirunlink_absent_name_no_effect:
  assumes "ins s dp = Some i" and "dir i = Some d" and "d (strbuf c name) = None"
  shows "dirunlink c s dp name inm dec_link tr = Ret (- 1) s"
  using assms by (simp add: dirunlink_def dir_init_def rbind_def dir_remove_def)

theorem dirunlink_absent_name_no_effect_witness:
  "dirunlink ex_c ex_state (1, 1) ''a'' 2 True None = Ret (- 1) ex_state"
  using dirunlink_absent_name_no_effect [of ex_state "(1, 1)"
          "(ex_inode 1 T_DIR 0)\<lparr>dir := Some Map.empty\<rparr>" Map.empty ex_c "''a''" 2 True None]
  by (simp add: ex_state_def)



section \<open>Reading and writing: sizes and return values\<close>

definition sizes :: "fs_state \<Rightarrow> ikey \<Rightarrow> u32 option" where
  "sizes s = (\<lambda>k. map_option i_size (ins s k))"

definition res_all :: "(fs_state \<Rightarrow> bool) \<Rightarrow> 'a result \<Rightarrow> bool" where
  "res_all P r = (case r of Ret x s \<Rightarrow> P s | Throw_out_of_blocks s \<Rightarrow> P s | Panic m \<Rightarrow> True)"

lemma res_all_simps [simp]:
  "res_all P (Ret x s) = P s"
  "res_all P (Throw_out_of_blocks s) = P s"
  "res_all P (Panic m) = True"
  by (simp_all add: res_all_def)


lemma sizes_simps [simp]:
  "sizes (buf_write s k d) = sizes s"
  "sizes (buf_touch s k) = sizes s"
  "sizes (writeback s k) = sizes s"
  "sizes (writeback_async s k) = sizes s"
  "sizes (add_to_transaction s k t) = sizes s"
  "sizes (log_if s k tr) = sizes s"
  "sizes (tx_allocated s tr b) = sizes s"
  "sizes (bzero c s dv bno wb) = sizes s"
  "sizes (set_addr s ip j b) = sizes s"
  by (auto simp: sizes_def buf_write_def buf_touch_def writeback_def writeback_async_def
      add_to_transaction_def log_if_def tx_allocated_def bzero_def set_addr_def Let_def
      split: option.splits)






lemma sizes_write_block [simp]: "sizes (write_block s k boff src soff m tr wb) = sizes s"
  by (simp add: write_block_def Let_def)




lemma get_put_u32_same [simp]: "get_u32 (put_u32 d k v) k = v"
  unfolding get_u32_def put_u32_def
  apply simp
  apply (rule bit_word_eqI)
  subgoal for n
    by (cases "n < 8"; cases "n < 16"; cases "n < 24") (auto simp add: bit_simps)
  done

lemma get_put_u32_other:
  "k + 4 \<le> j \<or> j + 4 \<le> k \<Longrightarrow> get_u32 (put_u32 d k v) j = get_u32 d j"
  unfolding get_u32_def put_u32_def by auto





lemmas eval_defs = writei_def writei_loop.simps readi_def readi_loop.simps bmap_def bmap_addr_def
  bmap_slot_def balloc_def alloc_block_def bzero_def buf_write_def buf_touch_def rbind_def set_addr_def
  tx_allocated_def log_if_def add_to_transaction_def write_block_def writeback_async_def writeback_def
  result_value_def result_state_def ex_state_def ex_c_def ex_inode_def MAXFILE_def T_DEV_def T_FILE_def
  T_DIR_def Let_def






lemma balloc_throws:
  assumes "free_list s = []"
  shows "balloc c s dv tr z = Throw_out_of_blocks s"
  using assms by (simp add: balloc_def alloc_block_def)





lemma write_block_fields [simp]:
  "ins (write_block s k boff src soff m tr wb) = ins s"
  "free_list (write_block s k boff src soff m tr wb) = free_list s"
  by (simp_all add: write_block_def buf_write_def log_if_def add_to_transaction_def
        writeback_async_def writeback_def Let_def split: option.splits)



















section \<open>Path resolution\<close>

text \<open>
  The components of a path in the words of the specification: consume the leading
  slashes, read up to the next slash or the end, and go on with what follows.
\<close>

function path_components :: "string \<Rightarrow> string list" where
  "path_components path =
     (if dropWhile (\<lambda>x. x = CHR ''/'') path = [] then []
      else takeWhile (\<lambda>x. x \<noteq> CHR ''/'') (dropWhile (\<lambda>x. x = CHR ''/'') path)
           # path_components (dropWhile (\<lambda>x. x \<noteq> CHR ''/'') (dropWhile (\<lambda>x. x = CHR ''/'') path)))"
  by pat_completeness auto
termination
proof (relation "measure length")
  show "wf (measure length)" by simp
next
  fix path :: string
  let ?p1 = "dropWhile (\<lambda>x. x = CHR ''/'') path"
  assume ne: "?p1 \<noteq> []"
  from ne obtain x xs where p1: "?p1 = x # xs" by (cases ?p1) simp_all
  have "\<not> (hd ?p1 = CHR ''/'')" using ne by (rule hd_dropWhile)
  then have x: "x \<noteq> CHR ''/''" by (simp add: p1)
  have "dropWhile (\<lambda>x. x \<noteq> CHR ''/'') ?p1 = dropWhile (\<lambda>x. x \<noteq> CHR ''/'') xs"
    unfolding p1 using x by simp
  also have "length \<dots> \<le> length xs" by (rule length_dropWhile_le)
  also have "length xs < length ?p1" unfolding p1 by simp
  also have "length ?p1 \<le> length path" by (rule length_dropWhile_le)
  finally show "(dropWhile (\<lambda>x. x \<noteq> CHR ''/'') ?p1, path) \<in> measure length" by simp
qed

declare path_components.simps [simp del]

lemma path_components_example: "path_components ''/a//bb/c/'' = [''a'', ''bb'', ''c'']"
  by (simp add: path_components.simps)

lemma components_dropWhile:
  "path_components (dropWhile (\<lambda>x. x = CHR ''/'') p) = path_components p"
  by (subst path_components.simps, subst (2) path_components.simps) (simp add: dropWhile_idem)

lemma skipelem_components:
  "skipelem c path name =
     (case path_components path of [] \<Rightarrow> (0, path, name)
      | x # xs \<Rightarrow> if DIRSIZ c < length x then (- 1, path, name)
          else (1, dropWhile (\<lambda>x. x = CHR ''/'')
                     (dropWhile (\<lambda>x. x \<noteq> CHR ''/'') (dropWhile (\<lambda>x. x = CHR ''/'') path)), x))"
  by (subst path_components.simps) (simp add: skipelem_def Let_def)

lemma skipelem_rest_components:
  "path_components path = x # xs \<Longrightarrow>
     path_components (dropWhile (\<lambda>x. x = CHR ''/'')
        (dropWhile (\<lambda>x. x \<noteq> CHR ''/'') (dropWhile (\<lambda>x. x = CHR ''/'') path))) = xs"
  by (subst (asm) path_components.simps) (auto simp: components_dropWhile split: if_splits)


lemma namex_loop_step:
  "skipelem c path name = (1, rest, x) \<Longrightarrow> ins s ip = Some i \<Longrightarrow> type i \<noteq> 0 \<Longrightarrow> type i = T_DIR
   \<Longrightarrow> \<not> (np \<and> rest = []) \<Longrightarrow>
   namex_loop c s ip path np name =
     (case dirlookup c s ip x of Panic m \<Rightarrow> Panic m
      | Throw_out_of_blocks s1 \<Rightarrow> Throw_out_of_blocks s1
      | Ret nxt s1 \<Rightarrow> (case nxt of None \<Rightarrow> Ret (None, x) s1
                        | Some ip1 \<Rightarrow> namex_loop c s1 ip1 rest np x))"
  by (subst namex_loop.simps) (auto simp: T_DIR_def)

lemma namex_loop_stop:
  "skipelem c path name = (1, rest, x) \<Longrightarrow> ins s ip = None \<or> (\<exists>i. ins s ip = Some i \<and> (type i = 0 \<or> type i \<noteq> T_DIR)) \<Longrightarrow>
   namex_loop c s ip path np name \<noteq> Ret (Some jp, nm) s'"
  by (subst namex_loop.simps) (auto split: if_splits)

lemma namex_loop_fail:
  "skipelem c path name = (- 1, rest, x) \<Longrightarrow> namex_loop c s ip path np name = Ret (None, x) s"
  by (subst namex_loop.simps) simp


lemma components_Nil: "path_components [] = []"
  by (simp add: path_components.simps)

lemma namex_loop_long_component:
  "\<exists>x \<in> set (path_components path). DIRSIZ c < length x \<Longrightarrow>
     namex_loop c s ip path np name \<noteq> Ret (Some jp, nm) s'"
proof (induction c s ip path np name rule: namex_loop.induct)
  case (1 c s ip path np name)
  from "1.prems" obtain x xs where px: "path_components path = x # xs"
    by (cases "path_components path") auto
  let ?rest = "dropWhile (\<lambda>x. x = CHR ''/'')
                     (dropWhile (\<lambda>x. x \<noteq> CHR ''/'') (dropWhile (\<lambda>x. x = CHR ''/'') path))"
  have rest: "path_components ?rest = xs" using px by (rule skipelem_rest_components)
  show ?case
  proof (cases "DIRSIZ c < length x")
    case True
    then have "skipelem c path name = (- 1, path, name)" by (simp add: skipelem_components px)
    then show ?thesis by (simp add: namex_loop_fail)
  next
    case False
    with "1.prems" have long: "\<exists>x \<in> set (path_components ?rest). DIRSIZ c < length x"
      unfolding px rest by simp
    then have cne: "path_components ?rest \<noteq> []" by auto
    have ne: "?rest \<noteq> []"
    proof
      assume e: "?rest = []"
      have "path_components ?rest = []" unfolding e by (rule components_Nil)
      with cne show False by contradiction
    qed
    have sk: "skipelem c path name = (1, ?rest, x)"
      using False by (simp add: skipelem_components px)
    show ?thesis
    proof (cases "ins s ip = None \<or> (\<exists>i. ins s ip = Some i \<and> (type i = 0 \<or> type i \<noteq> T_DIR))")
      case True
      with sk show ?thesis by (rule namex_loop_stop)
    next
      case F2: False
      then obtain i where i: "ins s ip = Some i" "type i \<noteq> 0" "type i = T_DIR" by auto
      have st: "namex_loop c s ip path np name =
         (case dirlookup c s ip x of Panic m \<Rightarrow> Panic m
          | Throw_out_of_blocks s1 \<Rightarrow> Throw_out_of_blocks s1
          | Ret nxt s1 \<Rightarrow> (case nxt of None \<Rightarrow> Ret (None, x) s1
                        | Some ip1 \<Rightarrow> namex_loop c s1 ip1 ?rest np x))"
        using sk i ne by (intro namex_loop_step) simp_all
      show ?thesis
      proof (cases "dirlookup c s ip x")
        case (Ret nxt s1)
        show ?thesis
        proof (cases nxt)
          case None
          then show ?thesis unfolding st Ret by simp
        next
          case (Some ip1)
          have "namex_loop c s1 ip1 ?rest np x \<noteq> Ret (Some jp, nm) s'"
            using i ne Ret Some long
            by (intro "1.IH" [OF sk [symmetric] refl refl i(1)]) simp_all
          then show ?thesis unfolding st Ret Some by simp
        qed
      next
        case (Throw_out_of_blocks s1)
        then show ?thesis unfolding st by simp
      next
        case (Panic m)
        then show ?thesis unfolding st by simp
      qed
    qed
  qed
qed


lemma namex_loop_no_component:
  assumes "path_components path = []"
  shows "namex_loop c s ip path np name = Ret (if np then None else Some ip, name) s"
proof -
  have "skipelem c path name = (0, path, name)"
    using assms by (simp add: skipelem_components)
  then show ?thesis by (subst namex_loop.simps) simp
qed

text \<open>
  C5, as the code has it. When some component of the path is longer than \<open>DIRSIZ\<close>,
  \<open>namex\<close> never returns an inode (it returns the empty reference, or an earlier step
  has already failed). A path with no component (empty, or slashes only) gives the empty
  reference when the parent is wanted; otherwise it gives \<open>cwd\<close>, or the root when the
  path starts with a slash. A first component of exactly \<open>DIRSIZ\<close> characters is accepted
  by \<open>skipelem\<close>, which returns 1 and copies it into \<open>name\<close>.
\<close>

theorem namex_component_lengths:
  "((\<exists>x \<in> set (path_components path). DIRSIZ c < length x) \<longrightarrow>
       namex c s cwd path np name \<noteq> Ret (Some jp, nm) s')
   \<and> (path_components path = [] \<longrightarrow>
       namex c s cwd path True name = Ret (None, name) s
       \<and> namex c s cwd path False name
           = Ret (Some (if path \<noteq> [] \<and> hd path = CHR ''/'' then the_root else cwd), name) s)
   \<and> (path_components path = x # xs \<longrightarrow> length x = DIRSIZ c \<longrightarrow>
       fst (skipelem c path name) = 1 \<and> snd (snd (skipelem c path name)) = x)"
proof -
  have A: "(\<exists>x \<in> set (path_components path). DIRSIZ c < length x) \<longrightarrow>
       namex c s cwd path np name \<noteq> Ret (Some jp, nm) s'"
    unfolding namex_def by (intro impI namex_loop_long_component)
  have B: "path_components path = [] \<longrightarrow>
       namex c s cwd path True name = Ret (None, name) s
       \<and> namex c s cwd path False name
           = Ret (Some (if path \<noteq> [] \<and> hd path = CHR ''/'' then the_root else cwd), name) s"
    unfolding namex_def by (simp add: namex_loop_no_component)
  have C: "path_components path = x # xs \<longrightarrow> length x = DIRSIZ c \<longrightarrow>
       fst (skipelem c path name) = 1 \<and> snd (snd (skipelem c path name)) = x"
    by (simp add: skipelem_components)
  show ?thesis by (intro conjI) (rule A B C)+
qed

text \<open>
  C5 as stated fails: \<open>namex(cwd, "", 0, name)\<close> returns \<open>cwd\<close>, and \<open>namei(cwd, "/")\<close> returns
  the root.
\<close>

theorem namex_empty_path_counterexample:
  "namex ex_c ex_state (1, 2) [] False [] = Ret (Some (1, 2), []) ex_state
   \<and> namei ex_c ex_state (1, 2) ''/'' = Ret (Some the_root, []) ex_state"
  by (simp add: namei_def namex_def namex_loop.simps skipelem_def)

theorem namex_component_lengths_witness:
  "namex ex_c ex_state (1, 1) ''abcde'' False [] \<noteq> Ret (Some (1, 2), ''abcde'') ex_state
   \<and> namex ex_c ex_state (1, 1) ''//'' True [] = Ret (None, []) ex_state
   \<and> namex ex_c ex_state (1, 1) ''//'' False [] = Ret (Some the_root, []) ex_state
   \<and> skipelem ex_c ''abcd/e'' [] = (1, ''e'', ''abcd'')"
  using namex_component_lengths [of "''abcde''" ex_c ex_state "(1, 1)" False "[]" "(1, 2)" "''abcde''"
           ex_state "''abcde''" "[]"]
        namex_component_lengths [of "''//''" ex_c ex_state "(1, 1)" False "[]" "(1, 2)" "''x''"
           ex_state "''x''" "[]"]
        namex_component_lengths [of "''abcd/e''" ex_c ex_state "(1, 1)" False "[]" "(1, 2)" "''x''"
           ex_state "''abcd''" "[''e'']"]
  by (simp add: path_components.simps skipelem_def ex_c_def)


section \<open>The on-disk bitmap update\<close>

text \<open>Bit \<open>p\<close> of a bitmap payload, and the bit of block \<open>x\<close> in the on-disk bitmap image.\<close>

definition bitmap_bit :: "bytes \<Rightarrow> nat \<Rightarrow> bool" where
  "bitmap_bit d p = bit (d (p div 8)) (p mod 8)"

definition bit_of :: "fsconst \<Rightarrow> fs_state \<Rightarrow> u32 \<Rightarrow> bool" where
  "bit_of c s x = bitmap_bit (bufs s (1, BBLOCK c x (sb_ninodes c))) (unat x mod BPB c)"

definition put_bit :: "bool \<Rightarrow> nat \<Rightarrow> bytes \<Rightarrow> bytes" where
  "put_bit alloc p d =
     d(p div 8 := (if alloc then d (p div 8) OR push_bit (p mod 8) 1
                   else d (p div 8) AND NOT (push_bit (p mod 8) 1)))"

lemma byte_test_bit: "j < 8 \<Longrightarrow> ((w :: u8) AND push_bit j 1 \<noteq> 0) = bit w j"
  by (simp add: push_bit_of_1 and_exp_eq_0_iff_not_bit)

lemma bitmap_bit_put_bit:
  "bitmap_bit (put_bit alloc p d) q = (if q = p then alloc else bitmap_bit d q)"
proof -
  have pq: "q \<noteq> p \<Longrightarrow> q div 8 = p div 8 \<Longrightarrow> q mod 8 \<noteq> p mod 8"
    by (metis div_mult_mod_eq)
  have lt: "p mod 8 < 8" "q mod 8 < 8" by simp_all
  show ?thesis
    using pq lt by (auto simp: bitmap_bit_def put_bit_def bit_simps)
qed

lemma bitmap_bit_fold_put_bit:
  "bitmap_bit (fold (put_bit alloc) ps d) q = (if q \<in> set ps then alloc else bitmap_bit d q)"
  by (induction ps arbitrary: d) (simp_all add: bitmap_bit_put_bit)

lemma apply_bits_spec:
  "apply_bits c alloc d xs =
     (if distinct (map (\<lambda>x. unat x mod BPB c) xs)
         \<and> (\<forall>x \<in> set xs. bitmap_bit d (unat x mod BPB c) \<noteq> alloc)
      then Inr (fold (put_bit alloc) (map (\<lambda>x. unat x mod BPB c) xs) d)
      else Inl (if alloc then ''balloc_free_on_disk: block already in use''
                else ''balloc_free_on_disk: block already free''))"
proof (induction xs arbitrary: d)
  case Nil
  show ?case by simp
next
  case (Cons x xs)
  let ?p = "unat x mod BPB c"
  have test: "(d (?p div 8) AND push_bit (?p mod 8) 1 \<noteq> 0) = bitmap_bit d ?p"
    unfolding bitmap_bit_def by (rule byte_test_bit) simp
  have upd: "(if alloc then d(?p div 8 := d (?p div 8) OR push_bit (?p mod 8) 1)
              else d(?p div 8 := d (?p div 8) AND NOT (push_bit (?p mod 8) 1))) = put_bit alloc ?p d"
    by (simp add: put_bit_def)
  show ?case
  proof (cases "bitmap_bit d ?p = alloc")
    case True
    then show ?thesis using test by (auto simp: Let_def)
  next
    case False
    have step: "apply_bits c alloc d (x # xs) = apply_bits c alloc (put_bit alloc ?p d) xs"
      using False test upd by (auto simp: Let_def)
    have bits: "\<And>y. bitmap_bit (put_bit alloc ?p d) (unat y mod BPB c)
        = (if unat y mod BPB c = ?p then alloc else bitmap_bit d (unat y mod BPB c))"
      by (simp add: bitmap_bit_put_bit)
    show ?thesis
      unfolding step Cons.IH using False by (auto simp: bits intro: rev_image_eqI)
  qed
qed


text \<open>The bitmap block (counted from the first one) and the bit position of a block number.\<close>

definition grp_of :: "fsconst \<Rightarrow> u32 \<Rightarrow> nat" where
  "grp_of c x = unat x div BPB c"

definition pos_of :: "fsconst \<Rightarrow> u32 \<Rightarrow> nat" where
  "pos_of c x = unat x mod BPB c"

lemma or_mask_nat: "(b :: nat) OR mask k = b div 2 ^ k * 2 ^ k + (2 ^ k - 1)"
proof -
  have d: "drop_bit k (b OR mask k) = drop_bit k b"
    by (auto simp: bit_eq_iff bit_simps)
  have t: "take_bit k (b OR mask k) = (mask k :: nat)"
    by (auto simp: bit_eq_iff bit_simps)
  have "push_bit k (drop_bit k (b OR mask k)) + take_bit k (b OR mask k) = b OR mask k"
    by (rule bits_ident)
  then have "b OR mask k = push_bit k (drop_bit k b) + mask k"
    unfolding d t by simp
  then show ?thesis
    by (simp add: push_bit_eq_mult drop_bit_eq_div mask_eq_exp_minus_1)
qed

lemma same_group_nat:
  fixes b x :: nat
  assumes "b \<le> x"
  shows "(x \<le> b OR mask k) = (x div 2 ^ k = b div 2 ^ k)"
proof -
  have le: "b div 2 ^ k \<le> x div 2 ^ k" using assms by (rule div_le_mono)
  have pos: "0 < (2::nat) ^ k" by simp
  have "(x \<le> b OR mask k) = (x < b div 2 ^ k * 2 ^ k + 2 ^ k)"
    unfolding or_mask_nat using pos by linarith
  also have "\<dots> = (x < (b div 2 ^ k + 1) * 2 ^ k)"
    by (simp add: algebra_simps)
  also have "\<dots> = (x div 2 ^ k < b div 2 ^ k + 1)"
    by (simp add: div_less_iff_less_mult)
  finally show ?thesis using le by auto
qed

lemma max_bno_same_group:
  assumes "BPB c = 2 ^ k" and "k \<le> 32" and "b \<le> x"
  shows "(x \<le> b OR of_nat (BPB c - 1)) = (grp_of c x = grp_of c b)"
proof -
  have "(2::nat) ^ k \<le> 2 ^ 32" using assms(2) by (intro power_increasing) simp_all
  moreover have "0 < (2::nat) ^ k" by simp
  ultimately have lt: "(2::nat) ^ k - 1 < 2 ^ 32" by linarith
  have "unat (of_nat (BPB c - 1) :: u32) = mask k"
    unfolding assms(1) unat_of_nat mask_eq_exp_minus_1 using lt by simp
  then have "unat (b OR of_nat (BPB c - 1)) = unat b OR mask k"
    by (simp add: unsigned_or_eq)
  moreover have "unat b \<le> unat x" using assms(3) by (simp add: word_le_nat_alt)
  ultimately show ?thesis
    by (simp add: word_le_nat_alt same_group_nat grp_of_def assms(1))
qed

lemma BBLOCK_eq_iff:
  assumes "unat n div IPB c + 3 + (2 ^ 32 - 1) div BPB c < 2 ^ 32"
  shows "(BBLOCK c x n = BBLOCK c y n) = (grp_of c x = grp_of c y)"
proof -
  have bound: "\<And>z :: u32. unat z div BPB c + unat n div IPB c + 3 < 2 ^ 32"
  proof -
    fix z :: u32
    have "unat z \<le> 2 ^ 32 - 1" using unsigned_less [of z, where 'a = nat] by simp
    then have "unat z div BPB c \<le> (2 ^ 32 - 1) div BPB c" by (rule div_le_mono)
    with assms show "unat z div BPB c + unat n div IPB c + 3 < 2 ^ 32" by linarith
  qed
  have u: "\<And>z. unat (BBLOCK c z n) = unat z div BPB c + unat n div IPB c + 3"
    unfolding BBLOCK_def unat_of_nat using bound by simp
  show ?thesis
    by (simp add: word_unat_eq_iff u grp_of_def)
qed

lemma pos_inj_in_group:
  "grp_of c x = grp_of c y \<Longrightarrow> (pos_of c x = pos_of c y) = (x = y)"
  unfolding grp_of_def pos_of_def
  by (metis div_mult_mod_eq word_unat_eq_iff)

lemma sorted_takeWhile_le_set:
  fixes xs :: "u32 list"
  assumes "sorted xs"
  shows "set (takeWhile (\<lambda>x. x \<le> m) xs) = {x \<in> set xs. x \<le> m}"
    and "set (dropWhile (\<lambda>x. x \<le> m) xs) = {x \<in> set xs. \<not> x \<le> m}"
  using assms by (induction xs) (auto simp: not_le)


text \<open>
  The effect of a run on the blocks \<open>xs\<close> with transaction \<open>t\<close>: the bit of every listed block
  is \<open>alloc\<close> and every other bit is as before; the transaction has gained one snapshot
  for each bitmap block that holds a listed bit, each once, with the final payload of
  that block; no other buffer has changed. \<open>bitmap_cfg\<close> says that \<open>BPB\<close> is a power of
  two (the grouping by \<open>*bno | (BPB - 1)\<close> relies on it) and that the numbers of the
  bitmap blocks fit in 32 bits.
\<close>

definition bitmap_applied :: "fsconst \<Rightarrow> nat \<Rightarrow> bool \<Rightarrow> u32 list \<Rightarrow> fs_state \<Rightarrow> fs_state \<Rightarrow> bool" where
  "bitmap_applied c t alloc xs s s' =
     ((\<forall>x. bit_of c s' x = (if x \<in> set xs then alloc else bit_of c s x))
      \<and> (\<exists>new. blocks (txs s' t) = blocks (txs s t) @ new
             \<and> distinct (map blocknum new)
             \<and> set (map blocknum new) = (\<lambda>x. BBLOCK c x (sb_ninodes c)) ` set xs
             \<and> (\<forall>b \<in> set new. blockdata b = bufs s' (1, blocknum b)))
      \<and> (\<forall>k. k \<notin> (\<lambda>x. (1, BBLOCK c x (sb_ninodes c))) ` set xs \<longrightarrow> bufs s' k = bufs s k))"

definition bitmap_cfg :: "fsconst \<Rightarrow> bool" where
  "bitmap_cfg c = ((\<exists>k \<le> 32. BPB c = 2 ^ k)
      \<and> unat (sb_ninodes c) div IPB c + 3 + (2 ^ 32 - 1) div BPB c < 2 ^ 32)"

lemma group_split:
  assumes "bitmap_cfg c" and "sorted (b # rest)"
  shows "\<forall>x \<in> set (b # takeWhile (\<lambda>x. x \<le> b OR of_nat (BPB c - 1)) rest). grp_of c x = grp_of c b"
    and "\<forall>x \<in> set (dropWhile (\<lambda>x. x \<le> b OR of_nat (BPB c - 1)) rest). grp_of c x \<noteq> grp_of c b"
proof -
  from assms(1) obtain k where k: "k \<le> 32" "BPB c = 2 ^ k" by (auto simp: bitmap_cfg_def)
  have le: "\<forall>x \<in> set rest. b \<le> x" and srt: "sorted rest" using assms(2) by simp_all
  have same: "\<And>x. x \<in> set rest \<Longrightarrow> (x \<le> b OR of_nat (BPB c - 1)) = (grp_of c x = grp_of c b)"
    using max_bno_same_group [OF k(2) k(1)] le by blast
  show "\<forall>x \<in> set (b # takeWhile (\<lambda>x. x \<le> b OR of_nat (BPB c - 1)) rest). grp_of c x = grp_of c b"
    using same by (auto simp: sorted_takeWhile_le_set(1) [OF srt])
  show "\<forall>x \<in> set (dropWhile (\<lambda>x. x \<le> b OR of_nat (BPB c - 1)) rest). grp_of c x \<noteq> grp_of c b"
    using same by (auto simp: sorted_takeWhile_le_set(2) [OF srt])
qed

lemma group_apply_bits:
  assumes cfg: "bitmap_cfg c" and grp: "\<forall>x \<in> set G. grp_of c x = grp_of c b"
  shows "apply_bits c alloc (bufs s (1, BBLOCK c b (sb_ninodes c))) G =
     (if distinct G \<and> (\<forall>x \<in> set G. bit_of c s x \<noteq> alloc)
      then Inr (fold (put_bit alloc) (map (pos_of c) G) (bufs s (1, BBLOCK c b (sb_ninodes c))))
      else Inl (if alloc then ''balloc_free_on_disk: block already in use''
                else ''balloc_free_on_disk: block already free''))"
proof -
  from cfg have inj: "unat (sb_ninodes c) div IPB c + 3 + (2 ^ 32 - 1) div BPB c < 2 ^ 32"
    by (simp add: bitmap_cfg_def)
  have blk: "\<And>x. x \<in> set G \<Longrightarrow> BBLOCK c x (sb_ninodes c) = BBLOCK c b (sb_ninodes c)"
    using grp by (simp add: BBLOCK_eq_iff [OF inj])
  have "inj_on (pos_of c) (set G)"
    by (rule inj_onI) (metis grp pos_inj_in_group)
  then have d: "distinct (map (pos_of c) G) = distinct G"
    by (simp add: distinct_map)
  have b: "(\<forall>x \<in> set G. bitmap_bit (bufs s (1, BBLOCK c b (sb_ninodes c))) (unat x mod BPB c) \<noteq> alloc)
      = (\<forall>x \<in> set G. bit_of c s x \<noteq> alloc)"
    using blk by (simp add: bit_of_def)
  have p: "(\<lambda>x. unat x mod BPB c) = pos_of c" by (simp add: pos_of_def fun_eq_iff)
  show ?thesis
    unfolding apply_bits_spec p b d by (rule refl)
qed

lemma group_state:
  fixes s :: fs_state and t :: nat and alloc :: bool and c :: fsconst and b :: u32
  assumes cfg: "bitmap_cfg c" and grp: "\<forall>x \<in> set G. grp_of c x = grp_of c b" and bG: "b \<in> set G"
  defines "K \<equiv> (1, BBLOCK c b (sb_ninodes c))"
  defines "s1 \<equiv> add_to_transaction
       (buf_write s K (fold (put_bit alloc) (map (pos_of c) G) (bufs s K))) K t"
  shows "bit_of c s1 x = (if x \<in> set G then alloc else bit_of c s x)"
    and "blocks (txs s1 t) = blocks (txs s t) @ [\<lparr>blocknum = BBLOCK c b (sb_ninodes c),
            blockdata = bufs s1 K, timestamp = tsc s\<rparr>]"
    and "k \<noteq> K \<Longrightarrow> bufs s1 k = bufs s k"
proof -
  from cfg have inj: "unat (sb_ninodes c) div IPB c + 3 + (2 ^ 32 - 1) div BPB c < 2 ^ 32"
    by (simp add: bitmap_cfg_def)
  have bufs1: "bufs s1 = (bufs s)(K := fold (put_bit alloc) (map (pos_of c) G) (bufs s K))"
    by (simp add: s1_def add_to_transaction_def buf_write_def)
  show "k \<noteq> K \<Longrightarrow> bufs s1 k = bufs s k" by (simp add: bufs1)
  show "blocks (txs s1 t) = blocks (txs s t) @ [\<lparr>blocknum = BBLOCK c b (sb_ninodes c),
            blockdata = bufs s1 K, timestamp = tsc s\<rparr>]"
    by (simp add: s1_def add_to_transaction_def buf_write_def add_block_def K_def)
  show "bit_of c s1 x = (if x \<in> set G then alloc else bit_of c s x)"
  proof (cases "grp_of c x = grp_of c b")
    case False
    then have "BBLOCK c x (sb_ninodes c) \<noteq> BBLOCK c b (sb_ninodes c)"
      by (simp add: BBLOCK_eq_iff [OF inj])
    moreover from False grp have "x \<notin> set G" by auto
    ultimately show ?thesis by (simp add: bit_of_def bufs1 K_def)
  next
    case True
    then have blk: "BBLOCK c x (sb_ninodes c) = BBLOCK c b (sb_ninodes c)"
      by (simp add: BBLOCK_eq_iff [OF inj])
    have "(pos_of c x \<in> pos_of c ` set G) = (x \<in> set G)"
    proof
      assume "pos_of c x \<in> pos_of c ` set G"
      then obtain y where y: "y \<in> set G" "pos_of c x = pos_of c y" by auto
      with grp True have "grp_of c x = grp_of c y" by simp
      with y show "x \<in> set G" by (simp add: pos_inj_in_group)
    qed simp
    then show ?thesis
      by (simp add: bit_of_def bufs1 K_def blk bitmap_bit_fold_put_bit pos_of_def)
  qed
qed


lemma bitmap_groups_spec:
  assumes cfg: "bitmap_cfg c"
  shows "sorted xs \<Longrightarrow> tr = Some t \<Longrightarrow>
     (if distinct xs \<and> (\<forall>x \<in> set xs. bit_of c s x \<noteq> alloc)
      then \<exists>s'. bitmap_groups c s xs tr alloc = Ret () s' \<and> bitmap_applied c t alloc xs s s'
      else \<exists>m. bitmap_groups c s xs tr alloc = Panic m)"
  using cfg
proof (induction c s xs tr alloc rule: bitmap_groups.induct)
  case (1 c s tr alloc)
  show ?case by (simp add: bitmap_groups.simps bitmap_applied_def)
next
  case (2 c s b rest tr alloc)
  note cfg = \<open>bitmap_cfg c\<close>
  from cfg have inj: "unat (sb_ninodes c) div IPB c + 3 + (2 ^ 32 - 1) div BPB c < 2 ^ 32"
    by (simp add: bitmap_cfg_def)
  define G where "G = b # takeWhile (\<lambda>x. x \<le> b OR of_nat (BPB c - 1)) rest"
  define R where "R = dropWhile (\<lambda>x. x \<le> b OR of_nat (BPB c - 1)) rest"
  define K where "K = (1 :: u32, BBLOCK c b (sb_ninodes c))"
  define d' where "d' = fold (put_bit alloc) (map (pos_of c) G) (bufs s K)"
  define s1 where "s1 = add_to_transaction (buf_write s K d') K t"
  have srt: "sorted (b # rest)" by fact
  have gG: "\<forall>x \<in> set G. grp_of c x = grp_of c b" and gR: "\<forall>x \<in> set R. grp_of c x \<noteq> grp_of c b"
    using group_split [OF cfg srt] by (simp_all add: G_def R_def)
  have bG: "b \<in> set G" by (simp add: G_def)
  have xs: "b # rest = G @ R" by (simp add: G_def R_def)
  have disj: "set G \<inter> set R = {}" using gG gR by auto
  have dist: "distinct (b # rest) = (distinct G \<and> distinct R)"
    unfolding xs using disj by simp
  have sR: "sorted R" using srt by (simp add: R_def sorted_dropWhile)
  have ab: "apply_bits c alloc (bufs s K) G =
     (if distinct G \<and> (\<forall>x \<in> set G. bit_of c s x \<noteq> alloc) then Inr d'
      else Inl (if alloc then ''balloc_free_on_disk: block already in use''
                else ''balloc_free_on_disk: block already free''))"
    unfolding K_def d'_def by (rule group_apply_bits [OF cfg gG])
  have unfold: "bitmap_groups c s (b # rest) tr alloc =
     (case apply_bits c alloc (bufs s K) G of Inl msg \<Rightarrow> Panic msg
      | Inr d \<Rightarrow> bitmap_groups c (add_to_transaction (buf_write s K d) K t) R tr alloc)"
    using \<open>tr = Some t\<close>
    by (simp add: bitmap_groups.simps G_def R_def K_def add_to_transaction_ptr_def split: sum.splits)
  show ?case
  proof (cases "distinct G \<and> (\<forall>x \<in> set G. bit_of c s x \<noteq> alloc)")
    case False
    then have nc: "\<not> (distinct (b # rest) \<and> (\<forall>x \<in> set (b # rest). bit_of c s x \<noteq> alloc))"
      unfolding dist unfolding xs by auto
    have pn: "\<exists>m. bitmap_groups c s (b # rest) tr alloc = Panic m"
      unfolding unfold ab if_not_P [OF False] by simp
    show ?thesis unfolding if_not_P [OF nc] by (rule pn)
  next
    case True
    have run: "bitmap_groups c s (b # rest) tr alloc = bitmap_groups c s1 R tr alloc"
      unfolding unfold ab s1_def if_P [OF True] by simp
    have st_bit: "\<And>x. bit_of c s1 x = (if x \<in> set G then alloc else bit_of c s x)"
      and st_blocks: "blocks (txs s1 t) = blocks (txs s t) @ [\<lparr>blocknum = BBLOCK c b (sb_ninodes c),
            blockdata = bufs s1 K, timestamp = tsc s\<rparr>]"
      and st_frame: "\<And>k. k \<noteq> K \<Longrightarrow> bufs s1 k = bufs s k"
      using group_state [OF cfg gG bG, where s = s and alloc = alloc and t = t] by (simp_all add: s1_def d'_def K_def)
    have condR: "(distinct R \<and> (\<forall>x \<in> set R. bit_of c s1 x \<noteq> alloc))
        = (distinct (b # rest) \<and> (\<forall>x \<in> set (b # rest). bit_of c s x \<noteq> alloc))"
      unfolding dist unfolding xs using True disj by (auto simp: st_bit)
    have apb: "apply_bits c alloc (bufs s (1, BBLOCK c b (sb_ninodes c)))
          (b # takeWhile (\<lambda>x. x \<le> b OR of_nat (BPB c - 1)) rest) = Inr d'"
      using ab unfolding if_P [OF True] by (simp add: K_def G_def)
    have atp: "add_to_transaction_ptr (buf_write s (1, BBLOCK c b (sb_ninodes c)) d')
          (1, BBLOCK c b (sb_ninodes c)) tr = Ret () s1"
      using \<open>tr = Some t\<close> by (simp add: add_to_transaction_ptr_def s1_def K_def)
    have IH: "if distinct R \<and> (\<forall>x \<in> set R. bit_of c s1 x \<noteq> alloc)
      then \<exists>s'. bitmap_groups c s1 R tr alloc = Ret () s' \<and> bitmap_applied c t alloc R s1 s'
      else \<exists>m. bitmap_groups c s1 R tr alloc = Panic m"
      unfolding R_def by (rule "2.IH" [OF apb atp sR [unfolded R_def] \<open>tr = Some t\<close> cfg])
    show ?thesis
    proof (cases "distinct R \<and> (\<forall>x \<in> set R. bit_of c s1 x \<noteq> alloc)")
      case False
      then have nc: "\<not> (distinct (b # rest) \<and> (\<forall>x \<in> set (b # rest). bit_of c s x \<noteq> alloc))"
        using condR by blast
      from IH have "\<exists>m. bitmap_groups c s1 R tr alloc = Panic m"
        unfolding if_not_P [OF False] .
      then show ?thesis unfolding if_not_P [OF nc] run .
    next
      case okR: True
      from IH have "\<exists>s'. bitmap_groups c s1 R tr alloc = Ret () s' \<and> bitmap_applied c t alloc R s1 s'"
        unfolding if_P [OF okR] .
      then obtain s' where r: "bitmap_groups c s1 R tr alloc = Ret () s'"
        and app: "bitmap_applied c t alloc R s1 s'" by blast
      from app obtain new where
        bits: "\<And>x. bit_of c s' x = (if x \<in> set R then alloc else bit_of c s1 x)"
        and nb: "blocks (txs s' t) = blocks (txs s1 t) @ new"
        and nd: "distinct (map blocknum new)"
        and ns: "set (map blocknum new) = (\<lambda>x. BBLOCK c x (sb_ninodes c)) ` set R"
        and ndata: "\<And>e. e \<in> set new \<Longrightarrow> blockdata e = bufs s' (1, blocknum e)"
        and frame: "\<And>k. k \<notin> (\<lambda>x. (1 :: u32, BBLOCK c x (sb_ninodes c))) ` set R \<Longrightarrow> bufs s' k = bufs s1 k"
        unfolding bitmap_applied_def by auto
      have KR: "BBLOCK c b (sb_ninodes c) \<notin> (\<lambda>x. BBLOCK c x (sb_ninodes c)) ` set R"
        using gR by (auto simp: BBLOCK_eq_iff [OF inj])
      then have KR': "K \<notin> (\<lambda>x. (1 :: u32, BBLOCK c x (sb_ninodes c))) ` set R"
        by (auto simp: K_def)
      have imG: "(\<lambda>x. BBLOCK c x (sb_ninodes c)) ` set G = {BBLOCK c b (sb_ninodes c)}"
        using gG bG by (auto simp: BBLOCK_eq_iff [OF inj])
      let ?snap = "\<lparr>blocknum = BBLOCK c b (sb_ninodes c), blockdata = bufs s1 K, timestamp = tsc s\<rparr>"
      have 1: "\<forall>x. bit_of c s' x = (if x \<in> set (b # rest) then alloc else bit_of c s x)"
        unfolding xs by (auto simp: bits st_bit)
      have 2: "blocks (txs s' t) = blocks (txs s t) @ (?snap # new)"
        by (simp add: nb st_blocks)
      have ns': "blocknum ` set new = (\<lambda>x. BBLOCK c x (sb_ninodes c)) ` set R"
        using ns by simp
      have 3: "distinct (map blocknum (?snap # new))"
        using nd KR by (simp add: ns')
      have 4: "set (map blocknum (?snap # new)) = (\<lambda>x. BBLOCK c x (sb_ninodes c)) ` set (b # rest)"
        unfolding xs using imG by (simp add: ns' image_Un)
      have 5: "\<forall>e \<in> set (?snap # new). blockdata e = bufs s' (1, blocknum e)"
        using ndata frame [OF KR'] by (auto simp: K_def)
      have 6: "\<forall>k. k \<notin> (\<lambda>x. (1 :: u32, BBLOCK c x (sb_ninodes c))) ` set (b # rest) \<longrightarrow> bufs s' k = bufs s k"
      proof (intro allI impI)
        fix k :: bkey assume k: "k \<notin> (\<lambda>x. (1 :: u32, BBLOCK c x (sb_ninodes c))) ` set (b # rest)"
        then have "k \<noteq> K" and "k \<notin> (\<lambda>x. (1 :: u32, BBLOCK c x (sb_ninodes c))) ` set R"
          unfolding xs using bG by (auto simp: K_def)
        then show "bufs s' k = bufs s k" using frame st_frame by simp
      qed
      have ba: "bitmap_applied c t alloc (b # rest) s s'"
        unfolding bitmap_applied_def using 1 2 3 4 5 6 by blast
      have cc: "distinct (b # rest) \<and> (\<forall>x \<in> set (b # rest). bit_of c s x \<noteq> alloc)"
        using okR condR by blast
      show ?thesis unfolding if_P [OF cc] run using r ba by blast
    qed
  qed
qed


text \<open>
  C7: for every list of block numbers and a transaction \<open>t\<close>: when the listed numbers are
  distinct and the bit of each is the opposite of \<open>alloc\<close>, \<open>balloc_free_on_disk\<close> returns
  with the vector sorted, exactly the listed bits flipped to \<open>alloc\<close>, and each bitmap block
  that holds a listed bit logged into \<open>t\<close> exactly once; in every other case (a bit that
  is already set when allocating or already clear when freeing, or a number listed
  twice) it panics.
\<close>

theorem balloc_free_on_disk_flips_bits:
  assumes "bitmap_cfg c"
  shows "if distinct blks \<and> (\<forall>x \<in> set blks. bit_of c s x \<noteq> alloc)
     then \<exists>s'. balloc_free_on_disk c s blks (Some t) alloc = Ret (sort blks) s'
               \<and> bitmap_applied c t alloc blks s s'
     else \<exists>m. balloc_free_on_disk c s blks (Some t) alloc = Panic m"
proof -
  have spec: "if distinct (sort blks) \<and> (\<forall>x \<in> set (sort blks). bit_of c s x \<noteq> alloc)
      then \<exists>s'. bitmap_groups c s (sort blks) (Some t) alloc = Ret () s'
              \<and> bitmap_applied c t alloc (sort blks) s s'
      else \<exists>m. bitmap_groups c s (sort blks) (Some t) alloc = Panic m"
    by (rule bitmap_groups_spec [OF assms]) simp_all
  have same: "\<And>s'. bitmap_applied c t alloc (sort blks) s s' = bitmap_applied c t alloc blks s s'"
    by (simp add: bitmap_applied_def)
  show ?thesis
  proof (cases "distinct blks \<and> (\<forall>x \<in> set blks. bit_of c s x \<noteq> alloc)")
    case True
    then have "distinct (sort blks) \<and> (\<forall>x \<in> set (sort blks). bit_of c s x \<noteq> alloc)" by simp
    from spec [unfolded if_P [OF this]] obtain s' where
      "bitmap_groups c s (sort blks) (Some t) alloc = Ret () s'" "bitmap_applied c t alloc blks s s'"
      unfolding same by blast
    then have "balloc_free_on_disk c s blks (Some t) alloc = Ret (sort blks) s'
               \<and> bitmap_applied c t alloc blks s s'"
      by (simp add: balloc_free_on_disk_def rbind_def)
    then show ?thesis unfolding if_P [OF True] by blast
  next
    case False
    then have "\<not> (distinct (sort blks) \<and> (\<forall>x \<in> set (sort blks). bit_of c s x \<noteq> alloc))" by simp
    from spec [unfolded if_not_P [OF this]] obtain m where
      "bitmap_groups c s (sort blks) (Some t) alloc = Panic m" by blast
    then have "balloc_free_on_disk c s blks (Some t) alloc = Panic m"
      by (simp add: balloc_free_on_disk_def rbind_def)
    then show ?thesis unfolding if_not_P [OF False] by blast
  qed
qed

lemma ex_c_bitmap_cfg: "bitmap_cfg ex_c"
  unfolding bitmap_cfg_def
  by (intro conjI exI [of _ 9]) (simp_all add: ex_c_def BPB_def IPB_def sizeof_dinode_def)

theorem balloc_free_on_disk_flips_bits_witness:
  "result_value (balloc_free_on_disk ex_c ex_state [70, 3, 600] (Some 0) True) = Some [3, 70, 600]
   \<and> map_option (\<lambda>s. map blocknum (blocks (txs s 0)))
        (result_state (balloc_free_on_disk ex_c ex_state [70, 3, 600] (Some 0) True)) = Some [11, 12]
   \<and> map_option (\<lambda>s. map (bit_of ex_c s) [3, 4, 70, 600])
        (result_state (balloc_free_on_disk ex_c ex_state [70, 3, 600] (Some 0) True))
        = Some [True, False, True, True]
   \<and> result_state (balloc_free_on_disk ex_c ex_state [3, 3] (Some 0) True) = None"
  using balloc_free_on_disk_flips_bits [OF ex_c_bitmap_cfg, of "[70, 3, 600]" ex_state True 0]
        balloc_free_on_disk_flips_bits [OF ex_c_bitmap_cfg, of "[3, 3]" ex_state True 0]
  by (simp add: balloc_free_on_disk_def bitmap_groups.simps rbind_def add_to_transaction_ptr_def
        add_to_transaction_def buf_write_def add_block_def new_transaction_def result_value_def
        result_state_def ex_state_def ex_c_def BBLOCK_def BPB_def IPB_def sizeof_dinode_def
        const_block_def bit_of_def bitmap_bit_def Let_def)


section \<open>Reading a sparse file allocates\<close>

text \<open>
  The block map of an inode as a function: the block number that logical block \<open>bn\<close> is
  mapped to, 0 for a hole. It follows the same three tiers as \<open>bmap\<close> and allocates
  nothing.
\<close>

definition bmap_peek :: "fsconst \<Rightarrow> fs_state \<Rightarrow> ikey \<Rightarrow> nat \<Rightarrow> u32" where
  "bmap_peek c s ip bn =
     (case ins s ip of None \<Rightarrow> 0
      | Some i \<Rightarrow>
        if bn < NDIRECT c then addrs i bn
        else if bn - NDIRECT c < NINDIRECT c then
          (if addrs i (NDIRECT c) = 0 then 0
           else ap_get (bufs s (dev i, addrs i (NDIRECT c))) (bn - NDIRECT c))
        else if bn - NDIRECT c - NINDIRECT c < NINDIRECT c * NINDIRECT c then
          (if addrs i (NDIRECT c + 1) = 0 then 0
           else if ap_get (bufs s (dev i, addrs i (NDIRECT c + 1)))
                     ((bn - NDIRECT c - NINDIRECT c) div NINDIRECT c) = 0 then 0
           else ap_get (bufs s (dev i, ap_get (bufs s (dev i, addrs i (NDIRECT c + 1)))
                                          ((bn - NDIRECT c - NINDIRECT c) div NINDIRECT c)))
                  ((bn - NDIRECT c - NINDIRECT c) mod NINDIRECT c))
        else 0)"

text \<open>
  What the allocator may assume of an inode on device 1: the free list names no block
  twice and not block 0, and neither the indirect block, nor the doubly-indirect block,
  nor a second-level block listed in it is free.
\<close>

definition block_map_ok :: "fsconst \<Rightarrow> fs_state \<Rightarrow> ikey \<Rightarrow> bool" where
  "block_map_ok c s ip =
     (distinct (free_list s) \<and> 0 \<notin> set (free_list s)
      \<and> (case ins s ip of None \<Rightarrow> False
         | Some i \<Rightarrow> dev i = 1
             \<and> addrs i (NDIRECT c) \<notin> set (free_list s)
             \<and> addrs i (NDIRECT c + 1) \<notin> set (free_list s)
             \<and> (addrs i (NDIRECT c + 1) = 0
                \<or> list_all (\<lambda>k. ap_get (bufs s (1, addrs i (NDIRECT c + 1))) k \<notin> set (free_list s))
                     [0 ..< NINDIRECT c])))"

text \<open>
  How allocation changes a state: blocks \<open>pre\<close> leave the head of the free list; an entry
  of the inode's \<open>addrs\<close>, or of a block that was not allocated now, stays or goes from 0
  to one of \<open>pre\<close>; a block that was allocated now holds only 0 and blocks of \<open>pre\<close>.
\<close>

definition grows_by :: "fsconst \<Rightarrow> ikey \<Rightarrow> fs_state \<Rightarrow> fs_state \<Rightarrow> u32 list \<Rightarrow> bool" where
  "grows_by c ip s s' pre =
     (free_list s = pre @ free_list s'
      \<and> (case ins s ip of None \<Rightarrow> False
         | Some i \<Rightarrow> (case ins s' ip of None \<Rightarrow> False
             | Some i' \<Rightarrow> dev i' = dev i
                 \<and> (\<forall>k. addrs i' k = addrs i k \<or> (addrs i k = 0 \<and> addrs i' k \<in> set pre))))
      \<and> (\<forall>blk j. blk \<notin> set pre \<longrightarrow>
            ap_get (bufs s' (1, blk)) j = ap_get (bufs s (1, blk)) j
            \<or> (ap_get (bufs s (1, blk)) j = 0 \<and> ap_get (bufs s' (1, blk)) j \<in> set pre))
      \<and> (\<forall>blk j. blk \<in> set pre \<longrightarrow> j < NINDIRECT c \<longrightarrow>
            ap_get (bufs s' (1, blk)) j = 0 \<or> ap_get (bufs s' (1, blk)) j \<in> set pre))"

lemma grows_by_refl: "ins s ip = Some i \<Longrightarrow> grows_by c ip s s []"
  by (simp add: grows_by_def)

lemma grows_by_trans:
  assumes g1: "grows_by c ip s s' p1" and g2: "grows_by c ip s' s'' p2"
    and d: "distinct (free_list s)" and z: "0 \<notin> set (free_list s)"
  shows "grows_by c ip s s'' (p1 @ p2)"
proof -
  from g1 have f1: "free_list s = p1 @ free_list s'" by (simp add: grows_by_def)
  from g2 have f2: "free_list s' = p2 @ free_list s''" by (simp add: grows_by_def)
  from d f1 f2 have disj: "set p1 \<inter> set p2 = {}" by auto
  from z f1 f2 have z1: "0 \<notin> set p1" and z2: "0 \<notin> set p2" by auto
  from g1 obtain i i' where i: "ins s ip = Some i" "ins s' ip = Some i'" "dev i' = dev i"
    and a1: "\<And>k. addrs i' k = addrs i k \<or> (addrs i k = 0 \<and> addrs i' k \<in> set p1)"
    by (auto simp: grows_by_def split: option.splits)
  from g2 i obtain i'' where i'': "ins s'' ip = Some i''" "dev i'' = dev i'"
    and a2: "\<And>k. addrs i'' k = addrs i' k \<or> (addrs i' k = 0 \<and> addrs i'' k \<in> set p2)"
    by (auto simp: grows_by_def split: option.splits)
  from g1 have b1: "\<And>blk j. blk \<notin> set p1 \<Longrightarrow>
            ap_get (bufs s' (1, blk)) j = ap_get (bufs s (1, blk)) j
            \<or> (ap_get (bufs s (1, blk)) j = 0 \<and> ap_get (bufs s' (1, blk)) j \<in> set p1)"
    and n1: "\<And>blk j. blk \<in> set p1 \<Longrightarrow> j < NINDIRECT c \<Longrightarrow>
            ap_get (bufs s' (1, blk)) j = 0 \<or> ap_get (bufs s' (1, blk)) j \<in> set p1"
    by (auto simp: grows_by_def)
  from g2 have b2: "\<And>blk j. blk \<notin> set p2 \<Longrightarrow>
            ap_get (bufs s'' (1, blk)) j = ap_get (bufs s' (1, blk)) j
            \<or> (ap_get (bufs s' (1, blk)) j = 0 \<and> ap_get (bufs s'' (1, blk)) j \<in> set p2)"
    and n2: "\<And>blk j. blk \<in> set p2 \<Longrightarrow> j < NINDIRECT c \<Longrightarrow>
            ap_get (bufs s'' (1, blk)) j = 0 \<or> ap_get (bufs s'' (1, blk)) j \<in> set p2"
    by (auto simp: grows_by_def)
  have A: "\<forall>k. addrs i'' k = addrs i k \<or> (addrs i k = 0 \<and> addrs i'' k \<in> set (p1 @ p2))"
  proof
    fix k
    from a1 [of k] a2 [of k] z1 show "addrs i'' k = addrs i k \<or> (addrs i k = 0 \<and> addrs i'' k \<in> set (p1 @ p2))"
      by auto
  qed
  have B: "\<forall>blk j. blk \<notin> set (p1 @ p2) \<longrightarrow>
            ap_get (bufs s'' (1, blk)) j = ap_get (bufs s (1, blk)) j
            \<or> (ap_get (bufs s (1, blk)) j = 0 \<and> ap_get (bufs s'' (1, blk)) j \<in> set (p1 @ p2))"
  proof (intro allI impI)
    fix blk j assume "blk \<notin> set (p1 @ p2)"
    then have "blk \<notin> set p1" "blk \<notin> set p2" by auto
    from b1 [OF this(1), of j] b2 [OF this(2), of j] z1
    show "ap_get (bufs s'' (1, blk)) j = ap_get (bufs s (1, blk)) j
            \<or> (ap_get (bufs s (1, blk)) j = 0 \<and> ap_get (bufs s'' (1, blk)) j \<in> set (p1 @ p2))"
      by auto
  qed
  have N: "\<forall>blk j. blk \<in> set (p1 @ p2) \<longrightarrow> j < NINDIRECT c \<longrightarrow>
            ap_get (bufs s'' (1, blk)) j = 0 \<or> ap_get (bufs s'' (1, blk)) j \<in> set (p1 @ p2)"
  proof (intro allI impI)
    fix blk j assume m: "blk \<in> set (p1 @ p2)" and j: "j < NINDIRECT c"
    show "ap_get (bufs s'' (1, blk)) j = 0 \<or> ap_get (bufs s'' (1, blk)) j \<in> set (p1 @ p2)"
    proof (cases "blk \<in> set p2")
      case True
      from n2 [OF True j] show ?thesis by auto
    next
      case False
      with m have "blk \<in> set p1" by auto
      from n1 [OF this j] b2 [OF False, of j] show ?thesis by auto
    qed
  qed
  show ?thesis
    unfolding grows_by_def using f1 f2 i i'' A B N by simp
qed


definition zero_block :: "fsconst \<Rightarrow> fs_state \<Rightarrow> u32 \<Rightarrow> bool" where
  "zero_block c s b = list_all (\<lambda>k. bufs s (1, b) k = 0) [0 ..< BSIZE c]"

lemma ap_get_ap_set: "ap_get (ap_set d k v) j = (if j = k then v else ap_get d j)"
proof (cases "j = k")
  case True
  then show ?thesis by (simp add: ap_get_def ap_set_def)
next
  case False
  then have "4 * k + 4 \<le> 4 * j \<or> 4 * j + 4 \<le> 4 * k" by arith
  then show ?thesis using False by (simp add: ap_get_def ap_set_def get_put_u32_other)
qed

lemma zero_block_ap_get:
  "zero_block c s b \<Longrightarrow> 4 * NINDIRECT c \<le> BSIZE c \<Longrightarrow> j < NINDIRECT c \<Longrightarrow>
     ap_get (bufs s (1, b)) j = 0"
  by (simp add: zero_block_def list_all_iff ap_get_def get_u32_def)

lemma balloc_Ret:
  "balloc c s 1 None z = Ret b s' \<Longrightarrow>
     \<exists>fl. free_list s = b # fl \<and> b < sb_size c
       \<and> s' = (if z then bzero c (s\<lparr>free_list := fl\<rparr>) 1 b False else s\<lparr>free_list := fl\<rparr>)"
  by (auto simp: balloc_def alloc_block_def tx_allocated_def Let_def split: list.splits if_splits)

lemma bzero_fields [simp]:
  "free_list (bzero c s dv b False) = free_list s"
  "ins (bzero c s dv b False) = ins s"
  "bufs (bzero c s dv b False) = (bufs s)((dv, b) := memset0 (bufs s (dv, b)) (BSIZE c))"
  by (simp_all add: bzero_def buf_write_def Let_def)

lemma bmap_addr_post:
  assumes r: "bmap_addr c s ip i k None True = Ret r s'"
    and i: "ins s ip = Some i" and dv: "dev i = 1" and cfg: "4 * NINDIRECT c \<le> BSIZE c"
  shows "\<exists>pre i'. grows_by c ip s s' pre \<and> ins s' ip = Some i' \<and> addrs i' k = r
      \<and> (addrs i k = 0 \<longrightarrow> pre = [r] \<and> zero_block c s' r)
      \<and> (addrs i k \<noteq> 0 \<longrightarrow> pre = [] \<and> s' = s)"
proof (cases "addrs i k = 0")
  case False
  with r have "r = addrs i k" "s' = s" by (simp_all add: bmap_addr_def)
  then show ?thesis using False i by (auto intro: grows_by_refl)
next
  case True
  with r dv obtain s1 where b: "balloc c s 1 None True = Ret r s1" and s': "s' = set_addr s1 ip k r"
    by (auto simp: bmap_addr_def rbind_def split: result.splits)
  from balloc_Ret [OF b] obtain fl where fl: "free_list s = r # fl"
    and s1: "s1 = bzero c (s\<lparr>free_list := fl\<rparr>) 1 r False" by auto
  have ins': "ins s' ip = Some (i\<lparr>addrs := (addrs i)(k := r)\<rparr>)"
    by (simp add: s' s1 set_addr_def i)
  have bufs': "bufs s' = (bufs s)((1, r) := memset0 (bufs s (1, r)) (BSIZE c))"
    by (simp add: s' s1 set_addr_def i)
  have fl': "free_list s' = fl" by (simp add: s' s1 set_addr_def i)
  have z: "zero_block c s' r"
    by (simp add: zero_block_def list_all_iff bufs' memset0_def)
  have zz: "\<And>j. j < NINDIRECT c \<Longrightarrow> ap_get (bufs s' (1, r)) j = 0"
    using z cfg by (rule zero_block_ap_get)
  have g: "grows_by c ip s s' [r]"
    unfolding grows_by_def
    by (auto simp: fl fl' i ins' True zz) (simp_all add: bufs')
  show ?thesis using g ins' z True by auto
qed


lemma bmap_slot_post:
  assumes r: "bmap_slot c s 1 blk k None True = Ret r s'"
    and i: "ins s ip = Some i" and nf: "blk \<notin> set (free_list s)"
    and cfg: "4 * NINDIRECT c \<le> BSIZE c"
  shows "\<exists>pre. grows_by c ip s s' pre \<and> ap_get (bufs s' (1, blk)) k = r
      \<and> (ap_get (bufs s (1, blk)) k = 0 \<longrightarrow> pre = [r] \<and> zero_block c s' r)
      \<and> (ap_get (bufs s (1, blk)) k \<noteq> 0 \<longrightarrow> pre = [] \<and> bufs s' = bufs s)"
proof (cases "ap_get (bufs s (1, blk)) k = 0")
  case False
  with r have r': "r = ap_get (bufs s (1, blk)) k" and s': "s' = buf_touch s (1, blk)"
    by (simp_all add: bmap_slot_def)
  have "grows_by c ip s s' []"
    by (simp add: grows_by_def s' buf_touch_def i)
  then show ?thesis using False r' by (auto simp: s' buf_touch_def)
next
  case True
  with r obtain s1 where b: "balloc c s 1 None True = Ret r s1"
    and s': "s' = buf_write s1 (1, blk) (ap_set (bufs s1 (1, blk)) k r)"
    by (auto simp: bmap_slot_def rbind_def log_if_def split: result.splits)
  from balloc_Ret [OF b] obtain fl where fl: "free_list s = r # fl"
    and s1: "s1 = bzero c (s\<lparr>free_list := fl\<rparr>) 1 r False" by auto
  from nf fl have ne: "blk \<noteq> r" by auto
  have ins': "ins s' ip = Some i" by (simp add: s' s1 buf_write_def i)
  have fl': "free_list s' = fl" by (simp add: s' s1 buf_write_def)
  have bufs': "bufs s' = (bufs s)((1, r) := memset0 (bufs s (1, r)) (BSIZE c),
                                 (1, blk) := ap_set (bufs s (1, blk)) k r)"
    using ne by (simp add: s' s1 buf_write_def)
  have z: "zero_block c s' r"
    using ne by (simp add: zero_block_def list_all_iff bufs' memset0_def)
  have zz: "\<And>j. j < NINDIRECT c \<Longrightarrow> ap_get (bufs s' (1, r)) j = 0"
    using z cfg by (rule zero_block_ap_get)
  have other: "\<And>b j. b \<noteq> r \<Longrightarrow> ap_get (bufs s' (1, b)) j
      = (if b = blk \<and> j = k then r else ap_get (bufs s (1, b)) j)"
    by (simp add: bufs' ap_get_ap_set)
  have g: "grows_by c ip s s' [r]"
    unfolding grows_by_def using True
    by (auto simp: fl fl' i ins' zz other)
  have "ap_get (bufs s' (1, blk)) k = r" using ne by (simp add: other)
  then show ?thesis using g z True by auto
qed

lemma grows_by_free_list:
  "grows_by c ip s s' pre \<Longrightarrow> free_list s = pre @ free_list s'"
  by (simp add: grows_by_def)

lemma block_map_ok_grows:
  assumes ok: "block_map_ok c s ip" and g: "grows_by c ip s s' pre"
  shows "block_map_ok c s' ip"
proof -
  from g have f: "free_list s = pre @ free_list s'" by (simp add: grows_by_def)
  from ok have d: "distinct (free_list s)" and z: "0 \<notin> set (free_list s)"
    by (simp_all add: block_map_ok_def)
  from d f have disj: "set pre \<inter> set (free_list s') = {}" by auto
  from g obtain i i' where i: "ins s ip = Some i" "ins s' ip = Some i'" "dev i' = dev i"
    and a: "\<And>k. addrs i' k = addrs i k \<or> (addrs i k = 0 \<and> addrs i' k \<in> set pre)"
    by (auto simp: grows_by_def split: option.splits)
  from g have b: "\<And>blk j. blk \<notin> set pre \<Longrightarrow>
            ap_get (bufs s' (1, blk)) j = ap_get (bufs s (1, blk)) j
            \<or> (ap_get (bufs s (1, blk)) j = 0 \<and> ap_get (bufs s' (1, blk)) j \<in> set pre)"
    and n: "\<And>blk j. blk \<in> set pre \<Longrightarrow> j < NINDIRECT c \<Longrightarrow>
            ap_get (bufs s' (1, blk)) j = 0 \<or> ap_get (bufs s' (1, blk)) j \<in> set pre"
    by (auto simp: grows_by_def)
  from ok i have dv: "dev i = 1" and a1: "addrs i (NDIRECT c) \<notin> set (free_list s)"
    and a2: "addrs i (NDIRECT c + 1) \<notin> set (free_list s)"
    and a3: "addrs i (NDIRECT c + 1) \<noteq> 0 \<Longrightarrow> j < NINDIRECT c \<Longrightarrow>
          ap_get (bufs s (1, addrs i (NDIRECT c + 1))) j \<notin> set (free_list s)" for j
    by (auto simp: block_map_ok_def list_all_iff)
  have notin: "\<And>x. x \<notin> set (free_list s) \<or> x \<in> set pre \<Longrightarrow> x \<notin> set (free_list s')"
    using f disj by auto
  have z': "0 \<notin> set (free_list s')" using z f by auto
  have 1: "addrs i' (NDIRECT c) \<notin> set (free_list s')"
  proof -
    from a [of "NDIRECT c"] a1
    have "addrs i' (NDIRECT c) \<notin> set (free_list s) \<or> addrs i' (NDIRECT c) \<in> set pre" by auto
    then show ?thesis by (rule notin)
  qed
  have 2: "addrs i' (NDIRECT c + 1) \<notin> set (free_list s')"
  proof -
    from a [of "NDIRECT c + 1"] a2
    have "addrs i' (NDIRECT c + 1) \<notin> set (free_list s) \<or> addrs i' (NDIRECT c + 1) \<in> set pre"
      by auto
    then show ?thesis by (rule notin)
  qed
  have 3: "ap_get (bufs s' (1, addrs i' (NDIRECT c + 1))) j \<notin> set (free_list s')"
    if nz: "addrs i' (NDIRECT c + 1) \<noteq> 0" and j: "j < NINDIRECT c" for j
  proof (cases "addrs i' (NDIRECT c + 1) \<in> set pre")
    case True
    from n [OF True j] show ?thesis
    proof
      assume "ap_get (bufs s' (1, addrs i' (NDIRECT c + 1))) j = 0"
      then show ?thesis using z' by simp
    next
      assume "ap_get (bufs s' (1, addrs i' (NDIRECT c + 1))) j \<in> set pre"
      then show ?thesis by (intro notin) simp
    qed
  next
    case False
    with a [of "NDIRECT c + 1"] have same: "addrs i' (NDIRECT c + 1) = addrs i (NDIRECT c + 1)"
      by auto
    from nz same have nz0: "addrs i (NDIRECT c + 1) \<noteq> 0" by simp
    from False same have F: "addrs i (NDIRECT c + 1) \<notin> set pre" by simp
    from b [OF F, of j] a3 [OF nz0 j]
    have "ap_get (bufs s' (1, addrs i (NDIRECT c + 1))) j \<notin> set (free_list s)
        \<or> ap_get (bufs s' (1, addrs i (NDIRECT c + 1))) j \<in> set pre" by auto
    then show ?thesis unfolding same by (rule notin)
  qed
  have "distinct (free_list s')" using d f by auto
  then show ?thesis
    unfolding block_map_ok_def using z' i dv 1 2 3 by (auto simp: list_all_iff)
qed


lemma grows_by_facts:
  assumes ok: "block_map_ok c s ip" and g: "grows_by c ip s s' pre"
  obtains i i' where "ins s ip = Some i" "ins s' ip = Some i'" "dev i = 1" "dev i' = 1"
    and "\<And>k. addrs i k \<noteq> 0 \<Longrightarrow> addrs i' k = addrs i k"
    and "\<And>k. addrs i k = 0 \<Longrightarrow> addrs i' k = 0 \<or> addrs i' k \<in> set pre"
    and "\<And>blk j. blk \<notin> set (free_list s) \<Longrightarrow> ap_get (bufs s (1, blk)) j \<noteq> 0 \<Longrightarrow>
           ap_get (bufs s' (1, blk)) j = ap_get (bufs s (1, blk)) j"
    and "\<And>blk j. blk \<notin> set (free_list s) \<Longrightarrow> ap_get (bufs s (1, blk)) j = 0 \<Longrightarrow>
           ap_get (bufs s' (1, blk)) j = 0 \<or> ap_get (bufs s' (1, blk)) j \<in> set pre"
    and "\<And>blk j. blk \<in> set pre \<Longrightarrow> j < NINDIRECT c \<Longrightarrow>
           ap_get (bufs s' (1, blk)) j = 0 \<or> ap_get (bufs s' (1, blk)) j \<in> set pre"
    and "addrs i (NDIRECT c) \<notin> set (free_list s)" "addrs i (NDIRECT c + 1) \<notin> set (free_list s)"
    and "\<And>j. addrs i (NDIRECT c + 1) \<noteq> 0 \<Longrightarrow> j < NINDIRECT c \<Longrightarrow>
          ap_get (bufs s (1, addrs i (NDIRECT c + 1))) j \<notin> set (free_list s)"
    and "0 \<notin> set pre" "set pre \<subseteq> set (free_list s)"
proof -
  from g have f: "free_list s = pre @ free_list s'" by (simp add: grows_by_def)
  from ok have z: "0 \<notin> set (free_list s)" by (simp add: block_map_ok_def)
  from g obtain i i' where i: "ins s ip = Some i" "ins s' ip = Some i'" "dev i' = dev i"
    and a: "\<And>k. addrs i' k = addrs i k \<or> (addrs i k = 0 \<and> addrs i' k \<in> set pre)"
    by (auto simp: grows_by_def split: option.splits)
  from g have b: "\<And>blk j. blk \<notin> set pre \<Longrightarrow>
            ap_get (bufs s' (1, blk)) j = ap_get (bufs s (1, blk)) j
            \<or> (ap_get (bufs s (1, blk)) j = 0 \<and> ap_get (bufs s' (1, blk)) j \<in> set pre)"
    and n: "\<And>blk j. blk \<in> set pre \<Longrightarrow> j < NINDIRECT c \<Longrightarrow>
            ap_get (bufs s' (1, blk)) j = 0 \<or> ap_get (bufs s' (1, blk)) j \<in> set pre"
    by (auto simp: grows_by_def)
  from ok i have dv: "dev i = 1" and a1: "addrs i (NDIRECT c) \<notin> set (free_list s)"
    and a2: "addrs i (NDIRECT c + 1) \<notin> set (free_list s)"
    and a3: "\<And>j. addrs i (NDIRECT c + 1) \<noteq> 0 \<Longrightarrow> j < NINDIRECT c \<Longrightarrow>
          ap_get (bufs s (1, addrs i (NDIRECT c + 1))) j \<notin> set (free_list s)"
    by (auto simp: block_map_ok_def list_all_iff)
  have sub: "set pre \<subseteq> set (free_list s)" using f by auto
  have zp: "0 \<notin> set pre" using z sub by auto
  have A1: "\<And>k. addrs i k \<noteq> 0 \<Longrightarrow> addrs i' k = addrs i k" using a by auto
  have A2: "\<And>k. addrs i k = 0 \<Longrightarrow> addrs i' k = 0 \<or> addrs i' k \<in> set pre"
  proof -
    fix k assume "addrs i k = 0"
    with a [of k] show "addrs i' k = 0 \<or> addrs i' k \<in> set pre" by auto
  qed
  have B1: "\<And>blk j. blk \<notin> set (free_list s) \<Longrightarrow> ap_get (bufs s (1, blk)) j \<noteq> 0 \<Longrightarrow>
           ap_get (bufs s' (1, blk)) j = ap_get (bufs s (1, blk)) j"
  proof -
    fix blk j assume "blk \<notin> set (free_list s)" and nz: "ap_get (bufs s (1, blk)) j \<noteq> 0"
    then have "blk \<notin> set pre" using sub by auto
    from b [OF this, of j] nz show "ap_get (bufs s' (1, blk)) j = ap_get (bufs s (1, blk)) j" by auto
  qed
  have B2: "\<And>blk j. blk \<notin> set (free_list s) \<Longrightarrow> ap_get (bufs s (1, blk)) j = 0 \<Longrightarrow>
           ap_get (bufs s' (1, blk)) j = 0 \<or> ap_get (bufs s' (1, blk)) j \<in> set pre"
  proof -
    fix blk j assume "blk \<notin> set (free_list s)" and e: "ap_get (bufs s (1, blk)) j = 0"
    then have "blk \<notin> set pre" using sub by auto
    from b [OF this, of j] e
    show "ap_get (bufs s' (1, blk)) j = 0 \<or> ap_get (bufs s' (1, blk)) j \<in> set pre" by auto
  qed
  from i(3) dv have dv': "dev i' = 1" by simp
  show thesis
    by (rule that [OF i(1) i(2) dv dv' A1 A2 B1 B2 n a1 a2 a3 zp sub])
qed

lemma dbl_index_bounds:
  assumes "q < n * n"
  shows "q div n < n" and "q mod n < (n::nat)"
proof -
  from assms have "0 < n" by (cases n) simp_all
  then show "q mod n < n" by simp
  from assms show "q div n < n" by (simp add: less_mult_imp_div_less)
qed

lemma bmap_peek_stable:
  assumes ok: "block_map_ok c s ip" and g: "grows_by c ip s s' pre"
    and m: "bmap_peek c s ip L \<noteq> 0"
  shows "bmap_peek c s' ip L = bmap_peek c s ip L"
proof (rule grows_by_facts [OF ok g], goal_cases)
  case (1 i i')
  note i = 1(1-4) and A1 = 1(5) and B1 = 1(7) and a1 = 1(10) and a2 = 1(11) and a3 = 1(12)
  consider (direct) "L < NDIRECT c"
    | (ind) "\<not> L < NDIRECT c" "L - NDIRECT c < NINDIRECT c"
    | (dbl) "\<not> L < NDIRECT c" "\<not> L - NDIRECT c < NINDIRECT c"
            "L - NDIRECT c - NINDIRECT c < NINDIRECT c * NINDIRECT c"
    | (out) "\<not> L < NDIRECT c" "\<not> L - NDIRECT c < NINDIRECT c"
            "\<not> L - NDIRECT c - NINDIRECT c < NINDIRECT c * NINDIRECT c"
    by blast
  then show ?thesis
  proof cases
    case direct
    with m i have "addrs i L \<noteq> 0" by (simp add: bmap_peek_def)
    from A1 [OF this] direct i show ?thesis by (simp add: bmap_peek_def)
  next
    case ind
    with m i have nz: "addrs i (NDIRECT c) \<noteq> 0"
      and e: "ap_get (bufs s (1, addrs i (NDIRECT c))) (L - NDIRECT c) \<noteq> 0"
      by (auto simp: bmap_peek_def split: if_splits)
    from A1 [OF nz] B1 [OF a1 e] nz ind i show ?thesis by (simp add: bmap_peek_def)
  next
    case dbl
    let ?q = "L - NDIRECT c - NINDIRECT c"
    let ?A = "addrs i (NDIRECT c + 1)"
    let ?F = "ap_get (bufs s (1, ?A)) (?q div NINDIRECT c)"
    from dbl m i have nz: "?A \<noteq> 0" and f: "?F \<noteq> 0"
      and e: "ap_get (bufs s (1, ?F)) (?q mod NINDIRECT c) \<noteq> 0"
      by (auto simp: bmap_peek_def split: if_splits)
    have F: "?F \<notin> set (free_list s)"
      using nz dbl_index_bounds(1) [OF dbl(3)] by (rule a3)
    from A1 [OF nz] B1 [OF a2 f] B1 [OF F e] nz f dbl i show ?thesis
      by (simp add: bmap_peek_def)
  next
    case out
    with m i show ?thesis by (simp add: bmap_peek_def)
  qed
qed


lemma bmap_peek_fresh:
  assumes ok: "block_map_ok c s ip" and g: "grows_by c ip s s' pre"
    and h: "bmap_peek c s ip L = 0" and m: "bmap_peek c s' ip L \<noteq> 0"
  shows "bmap_peek c s' ip L \<in> set pre"
proof (rule grows_by_facts [OF ok g], goal_cases)
  case (1 i i')
  note i = 1(1-4) and A1 = 1(5) and A2 = 1(6) and B1 = 1(7) and B2 = 1(8) and n = 1(9)
    and a1 = 1(10) and a2 = 1(11) and a3 = 1(12) and zp = 1(13)
  consider (direct) "L < NDIRECT c"
    | (ind) "\<not> L < NDIRECT c" "L - NDIRECT c < NINDIRECT c"
    | (dbl) "\<not> L < NDIRECT c" "\<not> L - NDIRECT c < NINDIRECT c"
            "L - NDIRECT c - NINDIRECT c < NINDIRECT c * NINDIRECT c"
    | (out) "\<not> L < NDIRECT c" "\<not> L - NDIRECT c < NINDIRECT c"
            "\<not> L - NDIRECT c - NINDIRECT c < NINDIRECT c * NINDIRECT c"
    by blast
  then show ?thesis
  proof cases
    case direct
    with h m i have "addrs i L = 0" "addrs i' L \<noteq> 0" by (simp_all add: bmap_peek_def)
    with A2 [of L] direct i show ?thesis by (auto simp: bmap_peek_def)
  next
    case ind
    let ?k = "L - NDIRECT c"
    from ind m i have nz': "addrs i' (NDIRECT c) \<noteq> 0"
      and e': "ap_get (bufs s' (1, addrs i' (NDIRECT c))) ?k \<noteq> 0"
      and p': "bmap_peek c s' ip L = ap_get (bufs s' (1, addrs i' (NDIRECT c))) ?k"
      by (auto simp: bmap_peek_def split: if_splits)
    show ?thesis
    proof (cases "addrs i (NDIRECT c) = 0")
      case True
      from A2 [OF True] nz' have "addrs i' (NDIRECT c) \<in> set pre" by auto
      from n [OF this ind(2)] e' show ?thesis unfolding p' by auto
    next
      case False
      from A1 [OF False] have same: "addrs i' (NDIRECT c) = addrs i (NDIRECT c)" .
      from h ind i False have "ap_get (bufs s (1, addrs i (NDIRECT c))) ?k = 0"
        by (simp add: bmap_peek_def)
      from B2 [OF a1 this] e' show ?thesis unfolding p' same by auto
    qed
  next
    case dbl
    let ?q = "L - NDIRECT c - NINDIRECT c"
    let ?A = "addrs i (NDIRECT c + 1)"
    let ?A' = "addrs i' (NDIRECT c + 1)"
    let ?F = "ap_get (bufs s (1, ?A)) (?q div NINDIRECT c)"
    let ?F' = "ap_get (bufs s' (1, ?A')) (?q div NINDIRECT c)"
    note qd = dbl_index_bounds(1) [OF dbl(3)] and qm = dbl_index_bounds(2) [OF dbl(3)]
    from dbl m i have nz': "?A' \<noteq> 0" and f': "?F' \<noteq> 0"
      and e': "ap_get (bufs s' (1, ?F')) (?q mod NINDIRECT c) \<noteq> 0"
      and p': "bmap_peek c s' ip L = ap_get (bufs s' (1, ?F')) (?q mod NINDIRECT c)"
      by (auto simp: bmap_peek_def split: if_splits)
    have Fpre: "?F' \<in> set pre \<Longrightarrow> ?thesis"
    proof -
      assume "?F' \<in> set pre"
      from n [OF this qm] e' show ?thesis unfolding p' by auto
    qed
    show ?thesis
    proof (cases "?A = 0")
      case True
      from A2 [OF True] nz' have "?A' \<in> set pre" by auto
      from n [OF this qd] f' have "?F' \<in> set pre" by auto
      then show ?thesis by (rule Fpre)
    next
      case False
      from A1 [OF False] have same: "?A' = ?A" .
      show ?thesis
      proof (cases "?F = 0")
        case True
        from B2 [OF a2 True] f' have "?F' \<in> set pre" unfolding same by auto
        then show ?thesis by (rule Fpre)
      next
        case F: False
        from B1 [OF a2 F] have sameF: "?F' = ?F" unfolding same .
        have Fnf: "?F \<notin> set (free_list s)" using False qd by (rule a3)
        from h dbl i False F have "ap_get (bufs s (1, ?F)) (?q mod NINDIRECT c) = 0"
          by (simp add: bmap_peek_def)
        from B2 [OF Fnf this] e' show ?thesis unfolding p' sameF by auto
      qed
    qed
  next
    case out
    with m i show ?thesis by (simp add: bmap_peek_def)
  qed
qed


lemma block_map_ok_inode:
  assumes "block_map_ok c s ip"
  obtains i where "ins s ip = Some i" "dev i = 1"
  using assms by (auto simp: block_map_ok_def split: option.splits)

lemma addr_step:
  assumes ok: "block_map_ok c s ip" and cfg: "4 * NINDIRECT c \<le> BSIZE c"
    and i: "ins s ip = Some i"
    and r: "bmap_addr c s ip i k None True = Ret a s1"
  shows "\<exists>pre i1. grows_by c ip s s1 pre \<and> block_map_ok c s1 ip \<and> ins s1 ip = Some i1
      \<and> dev i1 = 1 \<and> addrs i1 k = a \<and> a \<noteq> 0
      \<and> (addrs i k = 0 \<longrightarrow> zero_block c s1 a)
      \<and> (addrs i k \<noteq> 0 \<longrightarrow> s1 = s \<and> a = addrs i k)"
proof -
  from ok i have dv: "dev i = 1" and z: "0 \<notin> set (free_list s)"
    by (auto simp: block_map_ok_def)
  from bmap_addr_post [OF r i dv cfg] obtain pre i1 where
    g: "grows_by c ip s s1 pre" and i1: "ins s1 ip = Some i1" and a: "addrs i1 k = a"
    and c0: "addrs i k = 0 \<Longrightarrow> pre = [a] \<and> zero_block c s1 a"
    and c1: "addrs i k \<noteq> 0 \<Longrightarrow> pre = [] \<and> s1 = s"
    by blast
  have ok1: "block_map_ok c s1 ip" using ok g by (rule block_map_ok_grows)
  then have dv1: "dev i1 = 1" using i1 by (auto simp: block_map_ok_def)
  have nz: "a \<noteq> 0"
  proof (cases "addrs i k = 0")
    case True
    from c0 [OF True] grows_by_free_list [OF g] have "a \<in> set (free_list s)" by simp
    with z show ?thesis by auto
  next
    case False
    from c1 [OF False] i i1 a False show ?thesis by auto
  qed
  have "addrs i k \<noteq> 0 \<longrightarrow> s1 = s \<and> a = addrs i k"
    using c1 i i1 a by auto
  with g ok1 i1 dv1 a nz c0 show ?thesis by blast
qed

lemma slot_step:
  assumes ok: "block_map_ok c s ip" and cfg: "4 * NINDIRECT c \<le> BSIZE c"
    and nf: "blk \<notin> set (free_list s)"
    and r: "bmap_slot c s 1 blk k None True = Ret b s'"
  shows "\<exists>pre. grows_by c ip s s' pre \<and> block_map_ok c s' ip \<and> ap_get (bufs s' (1, blk)) k = b
      \<and> b \<noteq> 0
      \<and> (ap_get (bufs s (1, blk)) k = 0 \<longrightarrow> zero_block c s' b)
      \<and> (ap_get (bufs s (1, blk)) k \<noteq> 0 \<longrightarrow> bufs s' = bufs s)"
proof -
  from ok obtain i where i: "ins s ip = Some i" by (rule block_map_ok_inode)
  from ok have z: "0 \<notin> set (free_list s)" by (auto simp: block_map_ok_def)
  from bmap_slot_post [OF r i nf cfg] obtain pre where
    g: "grows_by c ip s s' pre" and e: "ap_get (bufs s' (1, blk)) k = b"
    and c0: "ap_get (bufs s (1, blk)) k = 0 \<Longrightarrow> pre = [b] \<and> zero_block c s' b"
    and c1: "ap_get (bufs s (1, blk)) k \<noteq> 0 \<Longrightarrow> pre = [] \<and> bufs s' = bufs s"
    by blast
  have ok1: "block_map_ok c s' ip" using ok g by (rule block_map_ok_grows)
  have nz: "b \<noteq> 0"
  proof (cases "ap_get (bufs s (1, blk)) k = 0")
    case True
    from c0 [OF True] grows_by_free_list [OF g] have "b \<in> set (free_list s)" by simp
    with z show ?thesis by auto
  next
    case False
    from c1 [OF False] e False show ?thesis by auto
  qed
  from g ok1 e nz c0 c1 show ?thesis by blast
qed


lemma grows_by_addr_stable:
  assumes g: "grows_by c ip s s' pre" and i: "ins s ip = Some i" and nz: "addrs i k \<noteq> 0"
  shows "\<exists>i'. ins s' ip = Some i' \<and> dev i' = dev i \<and> addrs i' k = addrs i k"
  using assms
  by (auto simp: grows_by_def split: option.splits)

lemma bmap_post:
  assumes ok: "block_map_ok c s ip" and cfg: "4 * NINDIRECT c \<le> BSIZE c"
    and r: "bmap c s ip bn None True = Ret b s'"
  shows "\<exists>pre. grows_by c ip s s' pre \<and> block_map_ok c s' ip
      \<and> bmap_peek c s' ip (unat bn) = b \<and> b \<noteq> 0
      \<and> (bmap_peek c s ip (unat bn) = 0 \<longrightarrow> zero_block c s' b)"
proof -
  from ok obtain i where i: "ins s ip = Some i" and dv: "dev i = 1" by (rule block_map_ok_inode)
  from ok have d: "distinct (free_list s)" and z: "0 \<notin> set (free_list s)"
    by (simp_all add: block_map_ok_def)
  let ?L = "unat bn"
  consider (direct) "?L < NDIRECT c"
    | (ind) "\<not> ?L < NDIRECT c" "?L - NDIRECT c < NINDIRECT c"
    | (dbl) "\<not> ?L < NDIRECT c" "\<not> ?L - NDIRECT c < NINDIRECT c"
            "?L - NDIRECT c - NINDIRECT c < NINDIRECT c * NINDIRECT c"
    | (out) "\<not> ?L < NDIRECT c" "\<not> ?L - NDIRECT c < NINDIRECT c"
            "\<not> ?L - NDIRECT c - NINDIRECT c < NINDIRECT c * NINDIRECT c"
    by blast
  then show ?thesis
  proof cases
    case direct
    with r i have "bmap_addr c s ip i ?L None True = Ret b s'" by (simp add: bmap_def)
    from addr_step [OF ok cfg i this] obtain pre i1 where
      g: "grows_by c ip s s' pre" and ok1: "block_map_ok c s' ip" and i1: "ins s' ip = Some i1"
      and a: "addrs i1 ?L = b" and nz: "b \<noteq> 0"
      and c0: "addrs i ?L = 0 \<longrightarrow> zero_block c s' b" by blast
    have "bmap_peek c s' ip ?L = b" using direct i1 a by (simp add: bmap_peek_def)
    moreover have "bmap_peek c s ip ?L = 0 \<longrightarrow> zero_block c s' b"
      using direct i c0 by (simp add: bmap_peek_def)
    ultimately show ?thesis using g ok1 nz by blast
  next
    case ind
    let ?k = "?L - NDIRECT c"
    from r i ind dv obtain a s1 where
      ra: "bmap_addr c s ip i (NDIRECT c) None True = Ret a s1"
      and rs: "bmap_slot c s1 1 a ?k None True = Ret b s'"
      by (auto simp: bmap_def rbind_def split: result.splits)
    from addr_step [OF ok cfg i ra] obtain p1 i1 where
      g1: "grows_by c ip s s1 p1" and ok1: "block_map_ok c s1 ip" and i1: "ins s1 ip = Some i1"
      and a: "addrs i1 (NDIRECT c) = a" and anz: "a \<noteq> 0"
      and c0: "addrs i (NDIRECT c) = 0 \<longrightarrow> zero_block c s1 a"
      and c1: "addrs i (NDIRECT c) \<noteq> 0 \<longrightarrow> s1 = s \<and> a = addrs i (NDIRECT c)" by blast
    from ok1 i1 a have anf: "a \<notin> set (free_list s1)" by (auto simp: block_map_ok_def)
    from slot_step [OF ok1 cfg anf rs] obtain p2 where
      g2: "grows_by c ip s1 s' p2" and ok2: "block_map_ok c s' ip"
      and e: "ap_get (bufs s' (1, a)) ?k = b" and nz: "b \<noteq> 0"
      and e0: "ap_get (bufs s1 (1, a)) ?k = 0 \<longrightarrow> zero_block c s' b" by blast
    have g: "grows_by c ip s s' (p1 @ p2)" using g1 g2 d z by (rule grows_by_trans)
    from grows_by_addr_stable [OF g2 i1] a anz obtain i' where
      i': "ins s' ip = Some i'" "dev i' = dev i1" "addrs i' (NDIRECT c) = a" by auto
    from ok1 i1 have "dev i1 = 1" by (auto simp: block_map_ok_def)
    with i' have dv': "dev i' = 1" by simp
    have pk: "bmap_peek c s' ip ?L = b"
      using ind i' dv' anz e by (simp add: bmap_peek_def)
    have zb: "bmap_peek c s ip ?L = 0 \<longrightarrow> zero_block c s' b"
    proof
      assume h: "bmap_peek c s ip ?L = 0"
      have "ap_get (bufs s1 (1, a)) ?k = 0"
      proof (cases "addrs i (NDIRECT c) = 0")
        case True
        with c0 have "zero_block c s1 a" by simp
        then show ?thesis using cfg ind(2) by (rule zero_block_ap_get)
      next
        case False
        with c1 have "s1 = s" "a = addrs i (NDIRECT c)" by simp_all
        with h ind i dv False show ?thesis by (simp add: bmap_peek_def)
      qed
      with e0 show "zero_block c s' b" by simp
    qed
    from g ok2 pk nz zb show ?thesis by blast
  next
    case dbl
    let ?q = "?L - NDIRECT c - NINDIRECT c"
    note qd = dbl_index_bounds(1) [OF dbl(3)] and qm = dbl_index_bounds(2) [OF dbl(3)]
    from r i dbl dv obtain A s1 F s2 where
      ra: "bmap_addr c s ip i (NDIRECT c + 1) None True = Ret A s1"
      and rf: "bmap_slot c s1 1 A (?q div NINDIRECT c) None True = Ret F s2"
      and rs: "bmap_slot c s2 1 F (?q mod NINDIRECT c) None True = Ret b s'"
      by (auto simp: bmap_def rbind_def not_le split: result.splits if_splits)
    from addr_step [OF ok cfg i ra] obtain p1 i1 where
      g1: "grows_by c ip s s1 p1" and ok1: "block_map_ok c s1 ip" and i1: "ins s1 ip = Some i1"
      and a: "addrs i1 (NDIRECT c + 1) = A" and Anz: "A \<noteq> 0"
      and c0: "addrs i (NDIRECT c + 1) = 0 \<longrightarrow> zero_block c s1 A"
      and c1: "addrs i (NDIRECT c + 1) \<noteq> 0 \<longrightarrow> s1 = s \<and> A = addrs i (NDIRECT c + 1)" by blast
    from ok1 i1 a have Anf: "A \<notin> set (free_list s1)" by (auto simp: block_map_ok_def)
    from ok1 have d1: "distinct (free_list s1)" and z1: "0 \<notin> set (free_list s1)"
      by (simp_all add: block_map_ok_def)
    from slot_step [OF ok1 cfg Anf rf] obtain p2 where
      g2: "grows_by c ip s1 s2 p2" and ok2: "block_map_ok c s2 ip"
      and f: "ap_get (bufs s2 (1, A)) (?q div NINDIRECT c) = F" and Fnz: "F \<noteq> 0"
      and f0: "ap_get (bufs s1 (1, A)) (?q div NINDIRECT c) = 0 \<longrightarrow> zero_block c s2 F"
      and f1: "ap_get (bufs s1 (1, A)) (?q div NINDIRECT c) \<noteq> 0 \<longrightarrow> bufs s2 = bufs s1" by blast
    from grows_by_addr_stable [OF g2 i1] a Anz obtain i2 where
      i2: "ins s2 ip = Some i2" "addrs i2 (NDIRECT c + 1) = A" by auto
    from ok2 i2 Anz qd f have Fnf: "F \<notin> set (free_list s2)"
      by (auto simp: block_map_ok_def list_all_iff)
    from ok2 i2 have Anf2: "A \<notin> set (free_list s2)" and dv2: "dev i2 = 1"
      by (auto simp: block_map_ok_def)
    from slot_step [OF ok2 cfg Fnf rs] obtain p3 where
      g3: "grows_by c ip s2 s' p3" and ok3: "block_map_ok c s' ip"
      and e: "ap_get (bufs s' (1, F)) (?q mod NINDIRECT c) = b" and nz: "b \<noteq> 0"
      and e0: "ap_get (bufs s2 (1, F)) (?q mod NINDIRECT c) = 0 \<longrightarrow> zero_block c s' b" by blast
    have g12: "grows_by c ip s s2 (p1 @ p2)" using g1 g2 d z by (rule grows_by_trans)
    have g: "grows_by c ip s s' ((p1 @ p2) @ p3)" using g12 g3 d z by (rule grows_by_trans)
    from grows_by_addr_stable [OF g3 i2(1)] i2(2) Anz dv2 obtain i' where
      i': "ins s' ip = Some i'" "dev i' = 1" "addrs i' (NDIRECT c + 1) = A" by auto
    have fstab: "ap_get (bufs s' (1, A)) (?q div NINDIRECT c) = F"
    proof (rule grows_by_facts [OF ok2 g3], goal_cases)
      case (1 j j')
      from 1(7) [OF Anf2, of "?q div NINDIRECT c"] f Fnz show ?case by simp
    qed
    have pk: "bmap_peek c s' ip ?L = b"
      using dbl i' Anz fstab Fnz e by (simp add: bmap_peek_def)
    have zb: "bmap_peek c s ip ?L = 0 \<longrightarrow> zero_block c s' b"
    proof
      assume h: "bmap_peek c s ip ?L = 0"
      have "ap_get (bufs s2 (1, F)) (?q mod NINDIRECT c) = 0"
      proof (cases "ap_get (bufs s1 (1, A)) (?q div NINDIRECT c) = 0")
        case True
        with f0 have "zero_block c s2 F" by simp
        then show ?thesis using cfg qm by (rule zero_block_ap_get)
      next
        case False
        with f1 have same: "bufs s2 = bufs s1" by simp
        have Aold: "addrs i (NDIRECT c + 1) \<noteq> 0"
        proof
          assume "addrs i (NDIRECT c + 1) = 0"
          with c0 have "zero_block c s1 A" by simp
          then have "ap_get (bufs s1 (1, A)) (?q div NINDIRECT c) = 0"
            using cfg qd by (rule zero_block_ap_get)
          with False show False by simp
        qed
        with c1 have s1: "s1 = s" and A: "A = addrs i (NDIRECT c + 1)" by simp_all
        from f same s1 have "ap_get (bufs s (1, A)) (?q div NINDIRECT c) = F" by simp
        with h dbl i dv Aold A Fnz show ?thesis
          by (simp add: bmap_peek_def same s1)
      qed
      with e0 show "zero_block c s' b" by simp
    qed
    from g ok3 pk nz zb show ?thesis by blast
  next
    case out
    with r i show ?thesis by (simp add: bmap_def not_less)
  qed
qed


text \<open>
  Logical block \<open>L\<close> is touched by a transfer of \<open>len\<close> bytes that starts at byte \<open>off\<close>.
\<close>

definition covers :: "fsconst \<Rightarrow> nat \<Rightarrow> nat \<Rightarrow> nat \<Rightarrow> bool" where
  "covers c off len L = (0 < len \<and> off div BSIZE c \<le> L \<and> L * BSIZE c < off + len)"

lemma covers_step:
  assumes cv: "covers c off len L" and ne: "L \<noteq> off div BSIZE c" and B: "0 < BSIZE c"
  shows "covers c (off + min len (BSIZE c - off mod BSIZE c))
           (len - min len (BSIZE c - off mod BSIZE c)) L"
proof -
  let ?B = "BSIZE c"
  from cv ne have L: "off div ?B + 1 \<le> L" and up: "L * ?B < off + len"
    by (auto simp: covers_def)
  have "(off div ?B + 1) * ?B \<le> L * ?B" using L by (rule mult_le_mono1)
  moreover have "(off div ?B + 1) * ?B = off - off mod ?B + ?B"
    by (simp add: algebra_simps minus_mod_eq_mult_div)
  moreover have "off mod ?B < ?B" using B by simp
  moreover have "off mod ?B \<le> off" by simp
  ultimately have lo: "off + (?B - off mod ?B) \<le> L * ?B" by linarith
  with up have m: "min len (?B - off mod ?B) = ?B - off mod ?B" by (simp add: min_def)
  have "off + (?B - off mod ?B) = (off div ?B + 1) * ?B"
    using \<open>(off div ?B + 1) * ?B = off - off mod ?B + ?B\<close> \<open>off mod ?B < ?B\<close> \<open>off mod ?B \<le> off\<close>
    by linarith
  then have dv: "(off + (?B - off mod ?B)) div ?B = off div ?B + 1"
    using B by simp
  show ?thesis
    unfolding covers_def m using L up lo dv by auto
qed

lemma readi_loop_maps:
  assumes cfg: "4 * NINDIRECT c \<le> BSIZE c"
  shows "block_map_ok c s ip \<Longrightarrow> off + (n - tot) \<le> 2 ^ 32 \<Longrightarrow>
     readi_loop c s ip dv off n tot dst = Ret res s' \<Longrightarrow>
     \<exists>pre. grows_by c ip s s' pre \<and> block_map_ok c s' ip
       \<and> (\<forall>L. covers c off (n - tot) L \<longrightarrow> bmap_peek c s' ip L \<noteq> 0)"
  using cfg
proof (induction c s ip dv off n tot dst rule: readi_loop.induct)
  case (1 c s ip dv off n tot dst)
  note ok = \<open>block_map_ok c s ip\<close> and cfg = \<open>4 * NINDIRECT c \<le> BSIZE c\<close>
  from ok obtain i where i: "ins s ip = Some i" by (rule block_map_ok_inode)
  from ok have d: "distinct (free_list s)" and z: "0 \<notin> set (free_list s)"
    by (simp_all add: block_map_ok_def)
  show ?case
  proof (cases "tot < n")
    case False
    with "1.prems"(3) have "s' = s" by (subst (asm) readi_loop.simps) simp
    moreover have "grows_by c ip s s []" using i by (rule grows_by_refl)
    ultimately show ?thesis using ok False by (auto simp: covers_def)
  next
    case True
    let ?m = "min (n - tot) (BSIZE c - off mod BSIZE c)"
    from "1.prems"(3) True have nz: "BSIZE c \<noteq> 0"
      by (subst (asm) readi_loop.simps) (auto split: if_splits)
    from "1.prems"(3) True nz obtain b s1 where
      bm: "bmap c s ip (of_nat (off div BSIZE c)) None True = Ret b s1"
      and rec: "readi_loop c s1 ip dv (off + ?m) n (tot + ?m)
                  (dst @ map (bufs s1 (dv, b)) [off mod BSIZE c ..< off mod BSIZE c + ?m]) = Ret res s'"
      by (subst (asm) readi_loop.simps) (auto split: result.splits)
    have "off < 2 ^ 32" using "1.prems"(2) True by linarith
    then have "off div BSIZE c < 2 ^ 32" using div_le_dividend [of off "BSIZE c"] by linarith
    then have un: "unat (of_nat (off div BSIZE c) :: u32) = off div BSIZE c"
      by (simp add: unat_of_nat)
    from bmap_post [OF ok cfg bm] obtain p1 where
      g1: "grows_by c ip s s1 p1" and ok1: "block_map_ok c s1 ip"
      and pk: "bmap_peek c s1 ip (off div BSIZE c) = b" and bnz: "b \<noteq> 0"
      unfolding un by blast
    have le: "off + ?m + (n - (tot + ?m)) \<le> 2 ^ 32" using "1.prems"(2) True by simp
    from "1.IH" [OF True nz bm ok1 le rec cfg] obtain p2 where
      g2: "grows_by c ip s1 s' p2" and ok2: "block_map_ok c s' ip"
      and al: "\<And>L. covers c (off + ?m) (n - (tot + ?m)) L \<Longrightarrow> bmap_peek c s' ip L \<noteq> 0"
      by blast
    have g: "grows_by c ip s s' (p1 @ p2)" using g1 g2 d z by (rule grows_by_trans)
    have "\<forall>L. covers c off (n - tot) L \<longrightarrow> bmap_peek c s' ip L \<noteq> 0"
    proof (intro allI impI)
      fix L assume cv: "covers c off (n - tot) L"
      show "bmap_peek c s' ip L \<noteq> 0"
      proof (cases "L = off div BSIZE c")
        case True
        have "bmap_peek c s' ip L = bmap_peek c s1 ip L"
          using ok1 g2 pk bnz unfolding True by (intro bmap_peek_stable) simp_all
        then show ?thesis using pk bnz True by simp
      next
        case False
        from nz have "0 < BSIZE c" by simp
        from covers_step [OF cv False this]
        have "covers c (off + ?m) (n - tot - ?m) L" .
        then have "covers c (off + ?m) (n - (tot + ?m)) L" by simp
        then show ?thesis by (rule al)
      qed
    qed
    with g ok2 show ?thesis by blast
  qed
qed

text \<open>
  The example state with the regular file \<open>(1, 2)\<close> given size 100 and no block: all of it
  is a hole.
\<close>

definition ex_sparse :: fs_state where
  "ex_sparse = ex_state\<lparr>ins := (ins ex_state)((1, 2) \<mapsto> ex_inode 2 T_FILE 100)\<rparr>"

text \<open>
C10: \<open>readi\<close> is not read-only on the block map. Let the inode be a regular file or a
  directory whose block map is well formed, let byte \<open>x\<close> lie inside both the requested range
  \<open>[off, off+n)\<close> and the file, and let the logical block of \<open>x\<close> be a hole. If \<open>readi\<close>
  returns (it calls \<open>bmap\<close> with no transaction), then in the state it leaves the block is
  mapped to a block number that was on the free list before the call and is not on it
  afterwards. The call of \<open>bmap\<close> that \<open>readi\<close> makes for that block returns a block taken
  from the free list, stored in the block map and zeroed.
\<close>

theorem readi_allocates_for_holes:
  assumes ok: "block_map_ok c s ip" and cfg: "4 * NINDIRECT c \<le> BSIZE c"
    and i: "ins s ip = Some i" and ty: "type i \<noteq> T_DEV"
    and x: "unat off \<le> x" "x < unat off + unat n" "x < unat (i_size i)"
    and nowrap: "unat off + unat n < 2 ^ 32"
    and hole: "bmap_peek c s ip (x div BSIZE c) = 0"
    and r: "readi c s ip off n = Ret (res, dst) s'"
  shows "bmap_peek c s' ip (x div BSIZE c) \<noteq> 0
     \<and> bmap_peek c s' ip (x div BSIZE c) \<in> set (free_list s)
     \<and> bmap_peek c s' ip (x div BSIZE c) \<notin> set (free_list s')
     \<and> (\<forall>b s1. bmap c s ip (of_nat (x div BSIZE c)) None True = Ret b s1 \<longrightarrow>
           bmap_peek c s1 ip (x div BSIZE c) = b \<and> b \<in> set (free_list s) \<and> zero_block c s1 b)"
proof -
  let ?L = "x div BSIZE c"
  let ?n = "if i_size i < off + n then i_size i - off else n"
  have offn: "unat (off + n) = unat off + unat n"
    using nowrap by (simp add: unat_word_ariths)
  have le: "off \<le> i_size i" using x by (simp add: word_le_nat_alt)
  have nw: "\<not> off + n < off" using offn by (simp add: word_less_nat_alt)
  have n': "unat ?n = min (unat n) (unat (i_size i) - unat off)"
    using le offn by (auto simp: word_less_nat_alt unat_sub word_le_nat_alt)
  have nlt: "\<not> i_size i < off" using le by (simp add: not_less)
  from r i ty nlt nw have loop:
    "readi_loop c s ip (dev i) (unat off) (unat ?n) 0 [] = Ret (res, dst) s'"
    by (simp add: readi_def Let_def split del: if_split)
  have sz: "unat (i_size i) < 2 ^ 32" using unsigned_less [of "i_size i", where 'a = nat] by simp
  have b32: "unat off + (unat ?n - 0) \<le> 2 ^ 32" unfolding n' using nowrap by simp
  from readi_loop_maps [OF cfg ok b32 loop] obtain pre where
    g: "grows_by c ip s s' pre" and ok': "block_map_ok c s' ip"
    and al: "\<And>L. covers c (unat off) (unat ?n) L \<Longrightarrow> bmap_peek c s' ip L \<noteq> 0"
    by auto
  have lx: "?L * BSIZE c \<le> x" by simp
  have "x < unat off + min (unat n) (unat (i_size i) - unat off)" using x by linarith
  with lx have "?L * BSIZE c < unat off + min (unat n) (unat (i_size i) - unat off)"
    by (rule le_less_trans)
  moreover have "unat off div BSIZE c \<le> ?L" using x(1) by (rule div_le_mono)
  moreover have "0 < min (unat n) (unat (i_size i) - unat off)" using x by linarith
  ultimately have cv: "covers c (unat off) (unat ?n) ?L"
    unfolding covers_def n' by simp
  have m: "bmap_peek c s' ip ?L \<noteq> 0" using cv by (rule al)
  have fr: "bmap_peek c s' ip ?L \<in> set pre" using ok g hole m by (rule bmap_peek_fresh)
  from g have f: "free_list s = pre @ free_list s'" by (rule grows_by_free_list)
  from ok have d: "distinct (free_list s)" by (simp add: block_map_ok_def)
  have A: "bmap_peek c s' ip ?L \<in> set (free_list s)" using fr f by simp
  have B: "bmap_peek c s' ip ?L \<notin> set (free_list s')" using fr f d by auto
  have "?L \<le> x" by (rule div_le_dividend)
  with x(3) sz have "?L < 2 ^ 32" by linarith
  then have un: "unat (of_nat ?L :: u32) = ?L" by (simp add: unat_of_nat)
  have C: "\<forall>b s1. bmap c s ip (of_nat ?L) None True = Ret b s1 \<longrightarrow>
           bmap_peek c s1 ip ?L = b \<and> b \<in> set (free_list s) \<and> zero_block c s1 b"
  proof (intro allI impI)
    fix b s1 assume bm: "bmap c s ip (of_nat ?L) None True = Ret b s1"
    from bmap_post [OF ok cfg bm] obtain p1 where
      g1: "grows_by c ip s s1 p1" and pk: "bmap_peek c s1 ip ?L = b" and bnz: "b \<noteq> 0"
      and zb: "zero_block c s1 b"
      unfolding un using hole by blast
    have "bmap_peek c s1 ip ?L \<in> set p1" using ok g1 hole pk bnz by (intro bmap_peek_fresh) simp_all
    with grows_by_free_list [OF g1] pk have "b \<in> set (free_list s)" by simp
    with pk zb show "bmap_peek c s1 ip ?L = b \<and> b \<in> set (free_list s) \<and> zero_block c s1 b" by simp
  qed
  from m A B C show ?thesis by blast
qed




text \<open>
Reading 10 bytes at offset 0 of the sparse file returns 10, maps logical block 0 to
  block 100, the head of the free list, and removes it from the list.
\<close>

theorem readi_allocates_for_holes_witness:
  "bmap_peek ex_c ex_sparse (1, 2) 0 = 0
   \<and> map_option fst (result_value (readi ex_c ex_sparse (1, 2) 0 10)) = Some 10
   \<and> map_option (\<lambda>s. bmap_peek ex_c s (1, 2) 0)
        (result_state (readi ex_c ex_sparse (1, 2) 0 10)) = Some 100
   \<and> map_option free_list (result_state (readi ex_c ex_sparse (1, 2) 0 10))
        = Some [101, 102, 103, 104, 105, 106, 107]"
  using readi_allocates_for_holes [where c = ex_c and s = ex_sparse and ip = "(1, 2)"
      and i = "ex_inode 2 T_FILE 100" and off = 0 and n = 10 and x = 0
      and res = "fst (the (result_value (readi ex_c ex_sparse (1, 2) 0 10)))"
      and dst = "snd (the (result_value (readi ex_c ex_sparse (1, 2) 0 10)))"
      and s' = "the (result_state (readi ex_c ex_sparse (1, 2) 0 10))"]
  by (simp add: eval_defs ex_sparse_def bmap_peek_def block_map_ok_def)


section \<open>Truncation: when are blocks freed?\<close>






























end
